theory Spec2Isabelle
  imports Main "HOL-Library.AList" "HOL-Library.Word"
begin

section \<open>Values, fields and the logging sink\<close>

text \<open>
  A Go \<^verbatim>\<open>interface{}\<close> value, by its dynamic type: the types the switch of
  \<^verbatim>\<open>LogKV\<close> tells apart, the nil interface, and one constructor for every other
  type. \<^verbatim>\<open>int\<close> is 64 bits wide; a float is its IEEE bit pattern (the code only
  passes floats on); an error and an object are named by a string.
\<close>

datatype gvalue =
    GNil
  | GString string
  | GInt "64 word"
  | GInt64 "64 word"
  | GInt32 "32 word"
  | GUint64 "64 word"
  | GUint32 "32 word"
  | GBool bool
  | GFloat32 "32 word"
  | GFloat64 "64 word"
  | GError string
  | GObject string

text \<open>
  \<^verbatim>\<open>otlog.Field\<close> of opentracing-go, seen through its two accessors \<^verbatim>\<open>Key()\<close> and
  \<^verbatim>\<open>Value()\<close>. The library's constructors store a typed value that \<^verbatim>\<open>Value()\<close> gives
  back unchanged. \<^verbatim>\<open>otlog.Error\<close> takes no key: the library fixes it, and it is the
  parameter \<open>errorKey\<close> here.
\<close>

datatype field = Field (Key: string) (Value: gvalue)

definition otlog_String :: "string \<Rightarrow> string \<Rightarrow> field" where
  "otlog_String key val = Field key (GString val)"

definition otlog_Int :: "string \<Rightarrow> 64 word \<Rightarrow> field" where
  "otlog_Int key val = Field key (GInt val)"

definition otlog_Int64 :: "string \<Rightarrow> 64 word \<Rightarrow> field" where
  "otlog_Int64 key val = Field key (GInt64 val)"

definition otlog_Int32 :: "string \<Rightarrow> 32 word \<Rightarrow> field" where
  "otlog_Int32 key val = Field key (GInt32 val)"

definition otlog_Uint64 :: "string \<Rightarrow> 64 word \<Rightarrow> field" where
  "otlog_Uint64 key val = Field key (GUint64 val)"

definition otlog_Uint32 :: "string \<Rightarrow> 32 word \<Rightarrow> field" where
  "otlog_Uint32 key val = Field key (GUint32 val)"

definition otlog_Bool :: "string \<Rightarrow> bool \<Rightarrow> field" where
  "otlog_Bool key val = Field key (GBool val)"

definition otlog_Float32 :: "string \<Rightarrow> 32 word \<Rightarrow> field" where
  "otlog_Float32 key val = Field key (GFloat32 val)"

definition otlog_Float64 :: "string \<Rightarrow> 64 word \<Rightarrow> field" where
  "otlog_Float64 key val = Field key (GFloat64 val)"

definition otlog_Error :: "string \<Rightarrow> string \<Rightarrow> field" where
  "otlog_Error errorKey err = Field errorKey (GError err)"

definition otlog_Object :: "string \<Rightarrow> gvalue \<Rightarrow> field" where
  "otlog_Object key obj = Field key obj"

text \<open>
  \<^verbatim>\<open>log.Fields\<close> of apex/log is a \<^verbatim>\<open>map[string]interface{}\<close>. A Go map is an
  association list here: \<^verbatim>\<open>m[k] = v\<close> is \<^const>\<open>AList.update\<close> (it replaces the entry
  of \<open>k\<close> where it stands, or appends one), \<^verbatim>\<open>m[k]\<close> is \<^const>\<open>map_of\<close>, and
  \<^verbatim>\<open>range m\<close> visits the entries in the order of the list. Go leaves that order
  open, and so every order is some list.
\<close>

type_synonym Fields = "(string \<times> gvalue) list"

text \<open>
  The logging sink is apex/log, outside this repository. A handle is either a logger
  that was given to \<^verbatim>\<open>New\<close>, or the entry that \<^verbatim>\<open>WithFields(f).Trace(name)\<close> returned
  on another handle. The sink records the calls it receives.
\<close>

datatype entry = Logger nat | Entry entry Fields string

datatype emission =
    Trace entry Fields string
  | InfoWithFields entry Fields string
  | Info entry string
  | Stop entry

section \<open>Tracer, Span and the store\<close>

definition DefaultMsgKey :: string where
  "DefaultMsgKey = ''message''"

record config =
  cfg_msgKey :: string

definition WithMsgKey :: "string \<Rightarrow> config \<Rightarrow> config" where
  "WithMsgKey k c = c\<lparr>cfg_msgKey := k\<rparr>"

record Tracer =
  logger :: entry
  msgKey :: string

text \<open>
  \<^verbatim>\<open>New\<close>: the options run in order on the default configuration; a nil logger is
  replaced by the package's default \<^verbatim>\<open>log.Log\<close>, the parameter \<open>log_Log\<close>.
\<close>

definition New :: "entry \<Rightarrow> entry option \<Rightarrow> (config \<Rightarrow> config) list \<Rightarrow> Tracer" where
  "New log_Log lg options =
     (let c = fold (\<lambda>opt c. opt c) options \<lparr>cfg_msgKey = DefaultMsgKey\<rparr>;
          lg = (case lg of None \<Rightarrow> log_Log | Some l \<Rightarrow> l)
      in \<lparr>logger = lg, msgKey = cfg_msgKey c\<rparr>)"

text \<open>
  A \<^verbatim>\<open>Span\<close>. Its two maps are references: \<open>None\<close> is the nil map, \<open>Some m\<close> the
  address of a map in the store. The logger is nil between the struct literal of
  \<^verbatim>\<open>StartSpan\<close> and the assignment at its end. A tracer never changes after
  \<^verbatim>\<open>New\<close>, so the span's reference to it is its value. A method of \<^verbatim>\<open>*Span\<close> takes the
  address of its receiver.
\<close>

record Span =
  tracer :: Tracer
  operationName :: string
  startedAt :: nat
  logger :: "entry option"
  baggage :: "nat option"
  tags :: "nat option"

text \<open>
  The store: spans, string maps and value maps by address, each with the next free
  address, and the calls the sink has received, oldest first.
\<close>

record world =
  spans :: "nat \<Rightarrow> Span"
  span_next :: nat
  bmaps :: "nat \<Rightarrow> (string \<times> string) list"
  bmap_next :: nat
  tmaps :: "nat \<Rightarrow> (string \<times> gvalue) list"
  tmap_next :: nat
  sink :: "emission list"

datatype error = NilPointerDereference

datatype ot_error = ErrUnsupportedFormat

definition emit :: "emission \<Rightarrow> world \<Rightarrow> world" where
  "emit e w = w\<lparr>sink := sink w @ [e]\<rparr>"

text \<open>Reading a map reference: the nil map has no entries.\<close>

definition baggage_of :: "world \<Rightarrow> nat \<Rightarrow> (string \<times> string) list option" where
  "baggage_of w s = map_option (bmaps w) (baggage (spans w s))"

definition tags_of :: "world \<Rightarrow> nat \<Rightarrow> (string \<times> gvalue) list option" where
  "tags_of w s = map_option (tmaps w) (tags (spans w s))"

fun range_map :: "('k \<times> 'v) list option \<Rightarrow> ('k \<times> 'v) list" where
  "range_map None = []"
| "range_map (Some m) = m"

section \<open>Tracer.makeFields and Tracer.info\<close>

text \<open>The type assertion \<^verbatim>\<open>msg, _ = value.(string)\<close>: the zero value when it fails.\<close>

fun assert_string :: "gvalue \<Rightarrow> string" where
  "assert_string (GString s) = s"
| "assert_string _ = ''''"

primrec baggage_loop :: "(string \<times> string) list \<Rightarrow> Fields \<Rightarrow> Fields" where
  "baggage_loop [] f = f"
| "baggage_loop (kv # rest) f = baggage_loop rest (AList.update (fst kv) (GString (snd kv)) f)"

primrec tags_loop :: "(string \<times> gvalue) list \<Rightarrow> Fields \<Rightarrow> Fields" where
  "tags_loop [] f = f"
| "tags_loop (kv # rest) f = tags_loop rest (AList.update (fst kv) (snd kv) f)"

primrec fields_loop :: "Tracer \<Rightarrow> field list \<Rightarrow> string \<times> Fields \<Rightarrow> string \<times> Fields" where
  "fields_loop t [] mf = mf"
| "fields_loop t (field # rest) mf =
     (let key = Key field; value = Value field
      in if key = msgKey t
         then fields_loop t rest (assert_string value, snd mf)
         else fields_loop t rest (fst mf, AList.update key value (snd mf)))"

definition makeFields ::
  "Tracer \<Rightarrow> (string \<times> string) list option \<Rightarrow> (string \<times> gvalue) list option \<Rightarrow>
   field list \<Rightarrow> string \<times> Fields" where
  "makeFields t bg tg flds =
     (let f = [];
          msg = '''';
          f = baggage_loop (range_map bg) f;
          f = tags_loop (range_map tg) f
      in fields_loop t flds (msg, f))"

text \<open>
  \<^verbatim>\<open>info\<close>: a call on a nil \<^verbatim>\<open>*log.Entry\<close> panics inside apex/log.
\<close>

definition info ::
  "Tracer \<Rightarrow> entry option \<Rightarrow> (string \<times> string) list option \<Rightarrow>
   (string \<times> gvalue) list option \<Rightarrow> field list \<Rightarrow> world \<Rightarrow> error + world" where
  "info t lg bg tg flds w =
     (case makeFields t bg tg flds of (msg, f) \<Rightarrow>
        (case lg of
           None \<Rightarrow> Inl NilPointerDereference
         | Some e \<Rightarrow>
             if length f > 0 then Inr (emit (InfoWithFields e f msg) w)
             else Inr (emit (Info e msg) w)))"

section \<open>Span\<close>

primrec foreach_loop ::
  "(string \<Rightarrow> string \<Rightarrow> 'h \<Rightarrow> bool \<times> 'h) \<Rightarrow> (string \<times> string) list \<Rightarrow> 'h \<Rightarrow> 'h" where
  "foreach_loop handler [] h = h"
| "foreach_loop handler (kv # rest) h =
     (case handler (fst kv) (snd kv) h of (ok, h') \<Rightarrow>
        if ok then h' else foreach_loop handler rest h')"

text \<open>
  \<^verbatim>\<open>ForeachBaggageItem\<close>. The handler is a closure: it gets the key, the value and its
  own state \<open>h\<close>, and returns its answer and its new state.
\<close>

definition ForeachBaggageItem ::
  "nat \<Rightarrow> (string \<Rightarrow> string \<Rightarrow> 'h \<Rightarrow> bool \<times> 'h) \<Rightarrow> 'h \<Rightarrow> world \<Rightarrow> 'h" where
  "ForeachBaggageItem s handler h w = foreach_loop handler (range_map (baggage_of w s)) h"

definition SetOperationName :: "nat \<Rightarrow> string \<Rightarrow> world \<Rightarrow> world" where
  "SetOperationName s name w =
     w\<lparr>spans := (spans w)(s := (spans w s)\<lparr>operationName := name\<rparr>)\<rparr>"

definition SetTag :: "nat \<Rightarrow> string \<Rightarrow> gvalue \<Rightarrow> world \<Rightarrow> world" where
  "SetTag s key value w =
     (let w = (case tags (spans w s) of
                 None \<Rightarrow> w\<lparr>spans := (spans w)(s := (spans w s)\<lparr>tags := Some (tmap_next w)\<rparr>),
                            tmaps := (tmaps w)(tmap_next w := []),
                            tmap_next := Suc (tmap_next w)\<rparr>
               | Some m \<Rightarrow> w)
      in case tags (spans w s) of
           None \<Rightarrow> w
         | Some m \<Rightarrow> w\<lparr>tmaps := (tmaps w)(m := AList.update key value (tmaps w m))\<rparr>)"

definition SetBaggageItem :: "nat \<Rightarrow> string \<Rightarrow> string \<Rightarrow> world \<Rightarrow> world" where
  "SetBaggageItem s restrictedKey value w =
     (let w = (case baggage (spans w s) of
                 None \<Rightarrow> w\<lparr>spans := (spans w)(s := (spans w s)\<lparr>baggage := Some (bmap_next w)\<rparr>),
                            bmaps := (bmaps w)(bmap_next w := []),
                            bmap_next := Suc (bmap_next w)\<rparr>
               | Some m \<Rightarrow> w)
      in case baggage (spans w s) of
           None \<Rightarrow> w
         | Some m \<Rightarrow> w\<lparr>bmaps := (bmaps w)(m := AList.update restrictedKey value (bmaps w m))\<rparr>)"

definition BaggageItem :: "nat \<Rightarrow> string \<Rightarrow> world \<Rightarrow> string" where
  "BaggageItem s restrictedKey w =
     (case baggage (spans w s) of
        None \<Rightarrow> ''''
      | Some m \<Rightarrow> (case map_of (bmaps w m) restrictedKey of None \<Rightarrow> '''' | Some v \<Rightarrow> v))"

definition LogFields :: "nat \<Rightarrow> field list \<Rightarrow> world \<Rightarrow> error + world" where
  "LogFields s flds w =
     info (tracer (spans w s)) (Span.logger (spans w s)) (baggage_of w s) (tags_of w s) flds w"

text \<open>
  The loop of \<^verbatim>\<open>LogKV\<close> over the pairs \<open>i, i + 1\<close>: a pair whose key is not a string
  is skipped, a last element without a partner is never read.
\<close>

fun LogKV_fields :: "string \<Rightarrow> gvalue list \<Rightarrow> field list \<Rightarrow> field list" where
  "LogKV_fields errorKey (GString key # value # rest) flds =
     LogKV_fields errorKey rest
       (case value of
          GString v \<Rightarrow> flds @ [otlog_String key v]
        | GInt v \<Rightarrow> flds @ [otlog_Int key v]
        | GInt64 v \<Rightarrow> flds @ [otlog_Int64 key v]
        | GInt32 v \<Rightarrow> flds @ [otlog_Int32 key v]
        | GUint64 v \<Rightarrow> flds @ [otlog_Uint64 key v]
        | GUint32 v \<Rightarrow> flds @ [otlog_Uint32 key v]
        | GBool v \<Rightarrow> flds @ [otlog_Bool key v]
        | GFloat32 v \<Rightarrow> flds @ [otlog_Float32 key v]
        | GFloat64 v \<Rightarrow> flds @ [otlog_Float64 key v]
        | GError v \<Rightarrow> flds @ [otlog_Error errorKey v]
        | _ \<Rightarrow> flds @ [otlog_Object key value])"
| "LogKV_fields errorKey (_ # _ # rest) flds = LogKV_fields errorKey rest flds"
| "LogKV_fields errorKey _ flds = flds"

text \<open>\<^verbatim>\<open>LogKV\<close> builds the list and returns: the list goes nowhere.\<close>

definition LogKV :: "string \<Rightarrow> nat \<Rightarrow> gvalue list \<Rightarrow> world \<Rightarrow> world" where
  "LogKV errorKey s alternatingKeyValues w =
     (let flds = LogKV_fields errorKey alternatingKeyValues [] in w)"

definition Finish :: "nat \<Rightarrow> world \<Rightarrow> error + world" where
  "Finish s w =
     (case Span.logger (spans w s) of
        None \<Rightarrow> Inl NilPointerDereference
      | Some e \<Rightarrow> Inr (emit (Stop e) w))"

section \<open>Tracer.StartSpan, Inject and Extract\<close>

text \<open>
  \<^verbatim>\<open>opentracing.StartSpanOptions\<close>, and a start option as what its \<^verbatim>\<open>Apply\<close> does to
  them. A referenced context is the nil interface, a \<^verbatim>\<open>*Span\<close> of this package (nil or
  an address), or a context of another tracer.
\<close>

datatype ref_type = ChildOfRef | FollowsFromRef

datatype span_context = NilContext | SpanContext "nat option" | ForeignContext

record SpanReference =
  Type :: ref_type
  ReferencedContext :: span_context

record StartSpanOptions =
  References :: "SpanReference list"
  StartTime :: "nat option"
  Tags :: "(string \<times> gvalue) list option"

type_synonym StartSpanOption = "StartSpanOptions \<Rightarrow> StartSpanOptions"

text \<open>
  The two options of opentracing-go that the tests of this package use, as the library
  documents them: \<^verbatim>\<open>ChildOf\<close> appends a child-of reference unless the context is the nil
  interface, \<^verbatim>\<open>Tags\<close> sets each of its entries in the options' tags.
\<close>

definition ChildOf :: "span_context \<Rightarrow> StartSpanOption" where
  "ChildOf ctx options =
     (if ctx \<noteq> NilContext
      then options\<lparr>References := References options @ [\<lparr>Type = ChildOfRef, ReferencedContext = ctx\<rparr>]\<rparr>
      else options)"

definition opentracing_Tags :: "(string \<times> gvalue) list \<Rightarrow> StartSpanOption" where
  "opentracing_Tags m options =
     options\<lparr>Tags := Some (tags_loop m (range_map (Tags options)))\<rparr>"

text \<open>\<^verbatim>\<open>Span.Context\<close> returns the span itself.\<close>

definition Context :: "nat \<Rightarrow> span_context" where
  "Context s = SpanContext (Some s)"

definition start_options :: "StartSpanOption list \<Rightarrow> StartSpanOptions" where
  "start_options opts =
     fold (\<lambda>opt options. opt options) opts \<lparr>References = [], StartTime = None, Tags = None\<rparr>"

primrec parent_loop :: "SpanReference list \<Rightarrow> nat option \<Rightarrow> nat option" where
  "parent_loop [] parent = parent"
| "parent_loop (ref # rest) parent =
     (if Type ref = ChildOfRef
      then (case ReferencedContext ref of
              SpanContext v \<Rightarrow> parent_loop rest v
            | _ \<Rightarrow> parent_loop rest parent)
      else parent_loop rest parent)"

primrec copy_loop :: "nat \<Rightarrow> (string \<times> string) list \<Rightarrow> world \<Rightarrow> world" where
  "copy_loop span [] w = w"
| "copy_loop span (kv # rest) w = copy_loop span rest (SetBaggageItem span (fst kv) (snd kv) w)"

text \<open>The struct literal of \<^verbatim>\<open>StartSpan\<close>: a new span at the next free address.\<close>

definition alloc_Span :: "Tracer \<Rightarrow> string \<Rightarrow> nat \<Rightarrow> world \<Rightarrow> world" where
  "alloc_Span t name now w =
     w\<lparr>spans := (spans w)(span_next w :=
          \<lparr>tracer = t, operationName = name, startedAt = now,
           logger = None, baggage = None, tags = None\<rparr>),
       span_next := Suc (span_next w)\<rparr>"

text \<open>The block \<^verbatim>\<open>if parent != nil\<close>: every baggage item of the parent is set on the span.\<close>

definition copy_baggage :: "nat option \<Rightarrow> nat \<Rightarrow> world \<Rightarrow> world" where
  "copy_baggage parent span w =
     (case parent of
        None \<Rightarrow> w
      | Some p \<Rightarrow> copy_loop span (range_map (baggage_of w p)) w)"

text \<open>The assignment \<^verbatim>\<open>span.logger = ...\<close>.\<close>

definition set_logger :: "nat \<Rightarrow> entry \<Rightarrow> world \<Rightarrow> world" where
  "set_logger span e w = w\<lparr>spans := (spans w)(span := (spans w span)\<lparr>logger := Some e\<rparr>)\<rparr>"

text \<open>
  \<^verbatim>\<open>StartSpan\<close>, with the value of \<^verbatim>\<open>time.Now()\<close> as the parameter \<open>now\<close>. It
  returns the address of the new span. The parent's logger is nil only for a span that
  \<^verbatim>\<open>StartSpan\<close> did not make; the call on it panics.
\<close>

definition StartSpan ::
  "Tracer \<Rightarrow> string \<Rightarrow> StartSpanOption list \<Rightarrow> nat \<Rightarrow> world \<Rightarrow> error + nat \<times> world" where
  "StartSpan t name opts now w =
     (let options = start_options opts;
          parent = parent_loop (References options) None;
          span = span_next w;
          w = alloc_Span t name now w;
          w = copy_baggage parent span w;
          tags = tags_loop (range_map (Tags options)) []
      in case makeFields t (baggage_of w span) (Some tags) [] of (_, f) \<Rightarrow>
           (case parent of
              None \<Rightarrow>
                Inr (span, set_logger span (Entry (Tracer.logger t) f name)
                             (emit (Trace (Tracer.logger t) f name) w))
            | Some p \<Rightarrow>
                (case Span.logger (spans w p) of
                   None \<Rightarrow> Inl NilPointerDereference
                 | Some e \<Rightarrow>
                     Inr (span, set_logger span (Entry e f name)
                                  (emit (Trace e f name) w)))))"

definition Inject :: "Tracer \<Rightarrow> span_context \<Rightarrow> gvalue \<Rightarrow> gvalue \<Rightarrow> ot_error option" where
  "Inject t sm format carrier = Some ErrUnsupportedFormat"

definition Extract :: "Tracer \<Rightarrow> gvalue \<Rightarrow> gvalue \<Rightarrow> span_context \<times> ot_error option" where
  "Extract t format carrier = (NilContext, Some ErrUnsupportedFormat)"

section \<open>Worlds\<close>

text \<open>
  The world before any span exists. The cells at and above the next free address are
  not allocated; what they hold is never read.
\<close>

definition init_world :: world where
  "init_world =
     \<lparr>spans = (\<lambda>_. \<lparr>tracer = \<lparr>Tracer.logger = Logger 0, msgKey = ''''\<rparr>, operationName = '''',
                       startedAt = 0, logger = None, baggage = None, tags = None\<rparr>),
      span_next = 0,
      bmaps = (\<lambda>_. []), bmap_next = 0,
      tmaps = (\<lambda>_. []), tmap_next = 0,
      sink = []\<rparr>"

text \<open>
  The invariant of the store: an allocated span has its logger, its maps are allocated
  and hold every key once, and no two allocated spans hold the same map. It holds of
  \<^const>\<open>init_world\<close>, and every operation of a span and \<^verbatim>\<open>StartSpan\<close> with an allocated
  parent keep it (the lemmas \<open>wf_init_world\<close> and \<open>wf_world_\<close>...).
\<close>

definition wf_span :: "world \<Rightarrow> nat \<Rightarrow> bool" where
  "wf_span w s \<longleftrightarrow>
     Span.logger (spans w s) \<noteq> None \<and>
     (case baggage (spans w s) of
        None \<Rightarrow> True
      | Some m \<Rightarrow> m < bmap_next w \<and> distinct (map fst (bmaps w m))) \<and>
     (case tags (spans w s) of
        None \<Rightarrow> True
      | Some m \<Rightarrow> m < tmap_next w \<and> distinct (map fst (tmaps w m)))"

definition no_shared_map :: "world \<Rightarrow> nat \<Rightarrow> nat \<Rightarrow> bool" where
  "no_shared_map w s s' \<longleftrightarrow>
     (case baggage (spans w s) of
        None \<Rightarrow> True
      | Some m \<Rightarrow> baggage (spans w s') \<noteq> Some m) \<and>
     (case tags (spans w s) of
        None \<Rightarrow> True
      | Some m \<Rightarrow> tags (spans w s') \<noteq> Some m)"

definition wf_world :: "world \<Rightarrow> bool" where
  "wf_world w \<longleftrightarrow>
     (\<forall>s \<in> set [0..<span_next w].
        wf_span w s \<and>
        (\<forall>s' \<in> set [0..<span_next w]. s \<noteq> s' \<longrightarrow> no_shared_map w s s'))"

section \<open>The documented contract of ForeachBaggageItem\<close>

text \<open>
  The doc comment of \<^verbatim>\<open>ForeachBaggageItem\<close>: the handler is called for each pair, and
  its answer says whether it wants to go on; it returns false to stop.
\<close>

primrec foreach_documented ::
  "(string \<Rightarrow> string \<Rightarrow> 'h \<Rightarrow> bool \<times> 'h) \<Rightarrow> (string \<times> string) list \<Rightarrow> 'h \<Rightarrow> 'h" where
  "foreach_documented handler [] h = h"
| "foreach_documented handler (kv # rest) h =
     (case handler (fst kv) (snd kv) h of (ok, h') \<Rightarrow>
        if ok then foreach_documented handler rest h' else h')"

text \<open>A handler that notes the pair it is called on and gives a fixed answer.\<close>

definition record_call ::
  "bool \<Rightarrow> string \<Rightarrow> string \<Rightarrow> (string \<times> string) list \<Rightarrow> bool \<times> (string \<times> string) list" where
  "record_call answer k v calls = (answer, calls @ [(k, v)])"

section \<open>The parent of a new span, as the specification words it\<close>


section \<open>The merge rule as the specification words it\<close>

text \<open>
  The specification's merge rule on mappings: start from the baggage entries, let the
  tags overwrite or add, then let each explicit field overwrite or add in turn, except
  the fields under the message key.
\<close>

definition merge_rule ::
  "string \<Rightarrow> (string \<rightharpoonup> string) \<Rightarrow> (string \<rightharpoonup> gvalue) \<Rightarrow> field list \<Rightarrow> (string \<rightharpoonup> gvalue)" where
  "merge_rule mk B T flds =
     foldl (\<lambda>m fld. if Key fld = mk then m else m(Key fld \<mapsto> Value fld))
       ((map_option GString \<circ> B) ++ T) flds"

text \<open>The explicit fields that are not under the message key, as entries, in order.\<close>

definition explicit_entries :: "Tracer \<Rightarrow> field list \<Rightarrow> (string \<times> gvalue) list" where
  "explicit_entries t flds =
     map (\<lambda>fld. (Key fld, Value fld)) (filter (\<lambda>fld. Key fld \<noteq> msgKey t) flds)"

section \<open>Properties of the field merge\<close>



lemma map_of_baggage_loop:
  "distinct (map fst b) \<Longrightarrow>
   map_of (baggage_loop b f) = map_of f ++ (map_option GString \<circ> map_of b)"
proof (induction b arbitrary: f)
  case Nil
  then show ?case by (simp add: fun_eq_iff map_add_def)
next
  case (Cons kv rest)
  then have absent: "map_of rest (fst kv) = None"
    by (simp add: map_of_eq_None_iff)
  show ?case
    using Cons absent
    by (auto simp add: fun_eq_iff map_add_def update_conv' split: option.splits)
qed

lemma map_of_tags_loop:
  "distinct (map fst tg) \<Longrightarrow> map_of (tags_loop tg f) = map_of f ++ map_of tg"
proof (induction tg arbitrary: f)
  case Nil
  then show ?case by simp
next
  case (Cons kv rest)
  then have absent: "map_of rest (fst kv) = None"
    by (simp add: map_of_eq_None_iff)
  show ?case
    using Cons absent
    by (auto simp add: fun_eq_iff map_add_def update_conv' split: option.splits)
qed

lemma map_of_fields_loop:
  "map_of (snd (fields_loop t flds mf)) =
   foldl (\<lambda>m fld. if Key fld = msgKey t then m else m(Key fld \<mapsto> Value fld))
     (map_of (snd mf)) flds"
  by (induction flds arbitrary: mf) (simp_all add: update_conv' Let_def)

lemma fields_loop_append:
  "fields_loop t (xs @ ys) mf = fields_loop t ys (fields_loop t xs mf)"
  by (induction xs arbitrary: mf) (simp_all add: Let_def)

lemma snd_fields_loop_msg:
  "snd (fields_loop t flds (m, f)) = snd (fields_loop t flds (m', f))"
  by (induction flds arbitrary: m m' f) (simp_all add: Let_def)

lemma snd_fields_loop_filter:
  "snd (fields_loop t flds mf) =
   snd (fields_loop t (filter (\<lambda>fld. Key fld \<noteq> msgKey t) flds) mf)"
proof (induction flds arbitrary: mf)
  case Nil
  show ?case by simp
next
  case (Cons fld rest)
  show ?case
  proof (cases "Key fld = msgKey t")
    case True
    have "snd (fields_loop t (fld # rest) mf) = snd (fields_loop t rest (assert_string (Value fld), snd mf))"
      using True by (simp add: Let_def)
    also have "\<dots> = snd (fields_loop t rest (fst mf, snd mf))"
      by (rule snd_fields_loop_msg)
    also have "\<dots> = snd (fields_loop t (filter (\<lambda>fld. Key fld \<noteq> msgKey t) rest) mf)"
      using Cons.IH [of mf] by simp
    finally show ?thesis using True by simp
  next
    case False
    then show ?thesis using Cons.IH by (simp add: Let_def)
  qed
qed

lemma fields_loop_no_msg:
  "\<forall>fld \<in> set flds. Key fld \<noteq> msgKey t \<Longrightarrow> fst (fields_loop t flds mf) = fst mf"
  by (induction flds arbitrary: mf) (simp_all add: Let_def)

lemma fst_fields_loop:
  "fst (fields_loop t flds mf) =
   (case filter (\<lambda>fld. Key fld = msgKey t) flds of
      [] \<Rightarrow> fst mf
    | m # ms \<Rightarrow> assert_string (Value (last (m # ms))))"
proof (induction flds arbitrary: mf)
  case Nil
  show ?case by simp
next
  case (Cons fld rest)
  show ?case
    using Cons.IH [of "(assert_string (Value fld), snd mf)"] Cons.IH [of "(fst mf, AList.update (Key fld) (Value fld) (snd mf))"]
    by (simp add: Let_def split: list.splits)
qed

lemma keys_baggage_loop: "fst ` set (baggage_loop b f) = fst ` set f \<union> fst ` set b"
  by (induction b arbitrary: f) (auto simp add: dom_update)

lemma keys_tags_loop: "fst ` set (tags_loop tg f) = fst ` set f \<union> fst ` set tg"
  by (induction tg arbitrary: f) (auto simp add: dom_update)

lemma keys_fields_loop:
  "fst ` set (snd (fields_loop t flds mf)) =
   fst ` set (snd mf) \<union> {Key fld |fld. fld \<in> set flds \<and> Key fld \<noteq> msgKey t}"
  by (induction flds arbitrary: mf) (auto simp add: dom_update Let_def)

lemma distinct_baggage_loop: "distinct (map fst f) \<Longrightarrow> distinct (map fst (baggage_loop b f))"
  by (induction b arbitrary: f) (simp_all add: distinct_update)

lemma distinct_tags_loop: "distinct (map fst f) \<Longrightarrow> distinct (map fst (tags_loop tg f))"
  by (induction tg arbitrary: f) (simp_all add: distinct_update)

lemma distinct_fields_loop:
  "distinct (map fst (snd mf)) \<Longrightarrow> distinct (map fst (snd (fields_loop t flds mf)))"
  by (induction flds arbitrary: mf) (simp_all add: distinct_update Let_def)



lemma foldl_explicit_entries:
  "foldl (\<lambda>m fld. if Key fld = msgKey t then m else m(Key fld \<mapsto> Value fld)) M flds =
   M ++ map_of (rev (explicit_entries t flds))"
proof (induction flds arbitrary: M)
  case Nil
  show ?case by (simp add: explicit_entries_def)
next
  case (Cons fld rest)
  show ?case
  proof (cases "Key fld = msgKey t")
    case True
    then show ?thesis using Cons.IH [of M] by (simp add: explicit_entries_def)
  next
    case False
    have "foldl (\<lambda>m fld. if Key fld = msgKey t then m else m(Key fld \<mapsto> Value fld)) M (fld # rest) =
          foldl (\<lambda>m fld. if Key fld = msgKey t then m else m(Key fld \<mapsto> Value fld))
            (M(Key fld \<mapsto> Value fld)) rest"
      using False by simp
    also have "\<dots> = M(Key fld \<mapsto> Value fld) ++ map_of (rev (explicit_entries t rest))"
      by (rule Cons.IH)
    also have "\<dots> = M ++ map_of (rev (explicit_entries t rest) @ [(Key fld, Value fld)])"
      by (auto simp add: fun_eq_iff map_add_def map_of_append split: option.splits)
    also have "rev (explicit_entries t rest) @ [(Key fld, Value fld)] =
               rev (explicit_entries t (fld # rest))"
      using False by (simp add: explicit_entries_def)
    finally show ?thesis .
  qed
qed

lemma map_of_makeFields:
  assumes "distinct (map fst (range_map bg))" and "distinct (map fst (range_map tg))"
  shows "map_of (snd (makeFields t bg tg flds)) =
         merge_rule (msgKey t) (map_of (range_map bg)) (map_of (range_map tg)) flds"
proof -
  have "map_of (tags_loop (range_map tg) (baggage_loop (range_map bg) [])) =
        (map_option GString \<circ> map_of (range_map bg)) ++ map_of (range_map tg)"
    using assms by (simp add: map_of_tags_loop map_of_baggage_loop)
  then show ?thesis
    by (simp add: makeFields_def merge_rule_def map_of_fields_loop)
qed

text \<open>
  C3: the mapping that \<^const>\<open>makeFields\<close> returns is the baggage, overwritten by the
  tags, overwritten by the explicit fields in their order. So at every key the last
  explicit field with that key decides, else the tag, else the baggage item. The maps
  of a span hold every key once, in whatever order the run-time visits them.
\<close>

theorem makeFields_merge_precedence:
  assumes "distinct (map fst (range_map bg))" and "distinct (map fst (range_map tg))"
  shows "map_of (snd (makeFields t bg tg flds)) =
           merge_rule (msgKey t) (map_of (range_map bg)) (map_of (range_map tg)) flds \<and>
         (\<forall>k. map_of (snd (makeFields t bg tg flds)) k =
            (case map_of (rev (explicit_entries t flds)) k of
               Some v \<Rightarrow> Some v
             | None \<Rightarrow>
                 (case map_of (range_map tg) k of
                    Some v \<Rightarrow> Some v
                  | None \<Rightarrow> map_option GString (map_of (range_map bg) k))))"
proof -
  have eq: "map_of (snd (makeFields t bg tg flds)) =
            merge_rule (msgKey t) (map_of (range_map bg)) (map_of (range_map tg)) flds"
    using assms by (rule map_of_makeFields)
  have "merge_rule (msgKey t) (map_of (range_map bg)) (map_of (range_map tg)) flds =
        ((map_option GString \<circ> map_of (range_map bg)) ++ map_of (range_map tg)) ++
        map_of (rev (explicit_entries t flds))"
    by (simp add: merge_rule_def foldl_explicit_entries)
  then have "\<forall>k. merge_rule (msgKey t) (map_of (range_map bg)) (map_of (range_map tg)) flds k =
            (case map_of (rev (explicit_entries t flds)) k of
               Some v \<Rightarrow> Some v
             | None \<Rightarrow>
                 (case map_of (range_map tg) k of
                    Some v \<Rightarrow> Some v
                  | None \<Rightarrow> map_option GString (map_of (range_map bg) k)))"
    by (simp add: map_add_def split: option.splits)
  with eq show ?thesis by simp
qed

theorem makeFields_merge_precedence_witness:
  "distinct (map fst (range_map (Some [(''a'', ''1'')]))) \<and>
   distinct (map fst (range_map (Some [(''a'', GString ''2''), (''b'', GString ''3'')]))) \<and>
   snd (makeFields (New (Logger 0) None []) (Some [(''a'', ''1'')])
          (Some [(''a'', GString ''2''), (''b'', GString ''3'')]) [otlog_String ''a'' ''4'']) =
     [(''a'', GString ''4''), (''b'', GString ''3'')] \<and>
   snd (makeFields (New (Logger 0) None []) (Some [(''a'', ''1'')])
          (Some [(''b'', GString ''3''), (''a'', GString ''2'')]) [otlog_String ''a'' ''4'']) =
     [(''a'', GString ''4''), (''b'', GString ''3'')] \<and>
   merge_rule ''message'' (map_of [(''a'', ''1'')])
     (map_of [(''a'', GString ''2''), (''b'', GString ''3'')]) [otlog_String ''a'' ''4''] =
     map_of [(''a'', GString ''4''), (''b'', GString ''3'')]"
  using makeFields_merge_precedence [of "Some [(''a'', ''1'')]"
      "Some [(''a'', GString ''2''), (''b'', GString ''3'')]" "New (Logger 0) None []"
      "[otlog_String ''a'' ''4'']"]
  by (simp add: makeFields_def New_def DefaultMsgKey_def otlog_String_def)

text \<open>
  C4: the message is what the string assertion gives on the value of the last explicit
  field under the message key, and the empty string when there is no such field. No
  field under the message key is stored: the returned mapping is the one the merge
  builds without these fields, and it holds the message key exactly when the baggage or
  the tags hold it. \<^const>\<open>info\<close> returns with one more call in the sink and the store
  unchanged: the message with the mapping when the mapping is not empty, and the message
  alone when it is.
\<close>

theorem message_extraction:
  "fst (makeFields t bg tg flds) =
     (case filter (\<lambda>fld. Key fld = msgKey t) flds of
        [] \<Rightarrow> ''''
      | m # ms \<Rightarrow> assert_string (Value (last (m # ms)))) \<and>
   snd (makeFields t bg tg flds) =
     snd (makeFields t bg tg (filter (\<lambda>fld. Key fld \<noteq> msgKey t) flds)) \<and>
   (msgKey t \<in> fst ` set (snd (makeFields t bg tg flds)) \<longleftrightarrow>
      msgKey t \<in> fst ` set (range_map bg) \<or> msgKey t \<in> fst ` set (range_map tg)) \<and>
   (\<exists>w'. info t (Some e) bg tg flds w = Inr w' \<and>
      sink w' = sink w @
        [if snd (makeFields t bg tg flds) \<noteq> []
         then InfoWithFields e (snd (makeFields t bg tg flds)) (fst (makeFields t bg tg flds))
         else Info e (fst (makeFields t bg tg flds))] \<and>
      spans w' = spans w \<and> bmaps w' = bmaps w \<and> tmaps w' = tmaps w)"
proof -
  have msg: "fst (makeFields t bg tg flds) =
     (case filter (\<lambda>fld. Key fld = msgKey t) flds of
        [] \<Rightarrow> ''''
      | m # ms \<Rightarrow> assert_string (Value (last (m # ms))))"
    by (simp add: makeFields_def fst_fields_loop split: list.splits)
  have excl: "snd (makeFields t bg tg flds) =
     snd (makeFields t bg tg (filter (\<lambda>fld. Key fld \<noteq> msgKey t) flds))"
    unfolding makeFields_def Let_def by (rule snd_fields_loop_filter)
  have keys: "msgKey t \<in> fst ` set (snd (makeFields t bg tg flds)) \<longleftrightarrow>
      msgKey t \<in> fst ` set (range_map bg) \<or> msgKey t \<in> fst ` set (range_map tg)"
    by (auto simp add: makeFields_def keys_fields_loop keys_tags_loop keys_baggage_loop)
  have emission: "\<exists>w'. info t (Some e) bg tg flds w = Inr w' \<and>
      sink w' = sink w @
        [if snd (makeFields t bg tg flds) \<noteq> []
         then InfoWithFields e (snd (makeFields t bg tg flds)) (fst (makeFields t bg tg flds))
         else Info e (fst (makeFields t bg tg flds))] \<and>
      spans w' = spans w \<and> bmaps w' = bmaps w \<and> tmaps w' = tmaps w"
    by (simp add: info_def emit_def split: prod.splits)
  from msg excl keys emission show ?thesis by blast
qed

theorem message_extraction_witness:
  "fst (makeFields (New (Logger 0) None []) None None [otlog_String ''message'' ''hello'']) = ''hello'' \<and>
   snd (makeFields (New (Logger 0) None []) None None [otlog_String ''message'' ''hello'']) = [] \<and>
   ''message'' \<notin> fst ` set (snd (makeFields (New (Logger 0) None []) (Some [(''bk'', ''bv'')]) None
        [otlog_String ''message'' ''hello'', otlog_Int ''n'' 1])) \<and>
   (\<exists>w'. info (New (Logger 0) None []) (Some (Logger 0)) None None
           [otlog_String ''message'' ''hello''] init_world = Inr w' \<and>
         sink w' = [Info (Logger 0) ''hello'']) \<and>
   (\<exists>w'. info (New (Logger 0) None []) (Some (Logger 0)) (Some [(''bk'', ''bv'')]) None
           [otlog_String ''message'' ''hello''] init_world = Inr w' \<and>
         sink w' = [InfoWithFields (Logger 0) [(''bk'', GString ''bv'')] ''hello''])"
proof -
  define t where "t = New (Logger 0) None []"
  have k: "msgKey t = ''message''" by (simp add: t_def New_def DefaultMsgKey_def)
  have m1: "makeFields t None None [otlog_String ''message'' ''hello''] = (''hello'', [])"
    by (simp add: makeFields_def k otlog_String_def)
  have m2: "makeFields t (Some [(''bk'', ''bv'')]) None [otlog_String ''message'' ''hello''] =
            (''hello'', [(''bk'', GString ''bv'')])"
    by (simp add: makeFields_def k otlog_String_def)
  have s0: "sink init_world = []" by (simp add: init_world_def)
  have 1: "fst (makeFields t None None [otlog_String ''message'' ''hello'']) = ''hello''"
    and 2: "snd (makeFields t None None [otlog_String ''message'' ''hello'']) = []"
    by (simp_all add: m1)
  have "msgKey t \<in> fst ` set (snd (makeFields t (Some [(''bk'', ''bv'')]) None
        [otlog_String ''message'' ''hello'', otlog_Int ''n'' 1])) \<longleftrightarrow>
      msgKey t \<in> fst ` set (range_map (Some [(''bk'', ''bv'')])) \<or>
      msgKey t \<in> fst ` set (range_map (None :: (string \<times> gvalue) list option))"
    using message_extraction [of t "Some [(''bk'', ''bv'')]" None
        "[otlog_String ''message'' ''hello'', otlog_Int ''n'' 1]" "Logger 0" init_world]
    by blast
  then have 3: "''message'' \<notin> fst ` set (snd (makeFields t (Some [(''bk'', ''bv'')]) None
        [otlog_String ''message'' ''hello'', otlog_Int ''n'' 1]))"
    unfolding k by simp
  have "\<exists>w'. info t (Some (Logger 0)) None None
           [otlog_String ''message'' ''hello''] init_world = Inr w' \<and>
         sink w' = sink init_world @
           [if snd (makeFields t None None [otlog_String ''message'' ''hello'']) \<noteq> []
            then InfoWithFields (Logger 0)
                   (snd (makeFields t None None [otlog_String ''message'' ''hello'']))
                   (fst (makeFields t None None [otlog_String ''message'' ''hello'']))
            else Info (Logger 0) (fst (makeFields t None None [otlog_String ''message'' ''hello'']))]"
    using message_extraction [of t None None "[otlog_String ''message'' ''hello'']" "Logger 0" init_world]
    by blast
  then have 4: "\<exists>w'. info t (Some (Logger 0)) None None
           [otlog_String ''message'' ''hello''] init_world = Inr w' \<and>
         sink w' = [Info (Logger 0) ''hello'']"
    unfolding m1 s0 by simp
  have "\<exists>w'. info t (Some (Logger 0)) (Some [(''bk'', ''bv'')]) None
           [otlog_String ''message'' ''hello''] init_world = Inr w' \<and>
         sink w' = sink init_world @
           [if snd (makeFields t (Some [(''bk'', ''bv'')]) None [otlog_String ''message'' ''hello'']) \<noteq> []
            then InfoWithFields (Logger 0)
                   (snd (makeFields t (Some [(''bk'', ''bv'')]) None [otlog_String ''message'' ''hello'']))
                   (fst (makeFields t (Some [(''bk'', ''bv'')]) None [otlog_String ''message'' ''hello'']))
            else Info (Logger 0)
                   (fst (makeFields t (Some [(''bk'', ''bv'')]) None [otlog_String ''message'' ''hello'']))]"
    using message_extraction [of t "Some [(''bk'', ''bv'')]" None
        "[otlog_String ''message'' ''hello'']" "Logger 0" init_world]
    by blast
  then have 5: "\<exists>w'. info t (Some (Logger 0)) (Some [(''bk'', ''bv'')]) None
           [otlog_String ''message'' ''hello''] init_world = Inr w' \<and>
         sink w' = [InfoWithFields (Logger 0) [(''bk'', GString ''bv'')] ''hello'']"
    unfolding m2 s0 by simp
  from 1 2 3 4 5 show ?thesis unfolding t_def by blast
qed

text \<open>
  With the message key among the baggage, the returned mapping holds the message key
  beside the extracted message.
\<close>

theorem message_extraction_counterexample:
  "msgKey (New (Logger 0) None []) = ''message'' \<and>
   makeFields (New (Logger 0) None []) (Some [(''message'', ''from-baggage'')]) None
     [otlog_String ''message'' ''hello''] =
   (''hello'', [(''message'', GString ''from-baggage'')])"
  by (simp add: makeFields_def New_def DefaultMsgKey_def otlog_String_def)

text \<open>
  C10: let a field under the message key have a value that is not a string. A merge
  that ends with this field returns the empty message and the mapping it had built
  before the field. Wherever the field stands, the returned mapping is the one the
  merge builds without it, and its value is never the message; and the message is
  empty when no later field is under the message key.
\<close>

theorem non_string_message_dropped:
  assumes "Key fld = msgKey t"
    and "\<forall>s. Value fld \<noteq> GString s"
  shows "makeFields t bg tg (before @ [fld]) = ('''', snd (makeFields t bg tg before)) \<and>
         snd (makeFields t bg tg (before @ fld # after)) =
           snd (makeFields t bg tg (before @ after)) \<and>
         ((\<forall>g \<in> set after. Key g \<noteq> msgKey t) \<longrightarrow>
            fst (makeFields t bg tg (before @ fld # after)) = '''') \<and>
         Value fld \<noteq> GString (fst (makeFields t bg tg (before @ fld # after)))"
proof -
  have never: "Value fld \<noteq> GString (fst (makeFields t bg tg (before @ fld # after)))"
    using assms(2) by simp
  have empty: "assert_string (Value fld) = ''''"
    using assms(2) by (cases "Value fld") simp_all
  have step: "fields_loop t (before @ fld # after) mf =
              fields_loop t after ('''', snd (fields_loop t before mf))" for after mf
    using assms(1) empty by (simp add: fields_loop_append Let_def)
  have last: "makeFields t bg tg (before @ [fld]) = ('''', snd (makeFields t bg tg before))"
    unfolding makeFields_def Let_def by (simp only: step fields_loop.simps)
  have dropped: "snd (makeFields t bg tg (before @ fld # after)) =
                 snd (makeFields t bg tg (before @ after))"
  proof -
    have "filter (\<lambda>g. Key g \<noteq> msgKey t) (before @ fld # after) =
          filter (\<lambda>g. Key g \<noteq> msgKey t) (before @ after)"
      using assms(1) by simp
    then show ?thesis
      unfolding makeFields_def Let_def
      using snd_fields_loop_filter [of t "before @ fld # after"]
            snd_fields_loop_filter [of t "before @ after"]
      by simp
  qed
  have msg: "(\<forall>g \<in> set after. Key g \<noteq> msgKey t) \<longrightarrow>
            fst (makeFields t bg tg (before @ fld # after)) = ''''"
    unfolding makeFields_def Let_def by (simp add: step fields_loop_no_msg)
  from last dropped msg never show ?thesis by blast
qed

theorem non_string_message_dropped_witness:
  "Key (otlog_Int ''message'' 5) = msgKey (New (Logger 0) None []) \<and>
   (\<forall>s. Value (otlog_Int ''message'' 5) \<noteq> GString s) \<and>
   makeFields (New (Logger 0) None []) (Some [(''bk'', ''bv'')]) None
     ([otlog_String ''message'' ''hello''] @ [otlog_Int ''message'' 5]) =
   ('''', [(''bk'', GString ''bv'')]) \<and>
   makeFields (New (Logger 0) None []) (Some [(''bk'', ''bv'')]) None
     ([otlog_String ''message'' ''hello''] @ otlog_Int ''message'' 5 # [otlog_Bool ''ok'' True]) =
   ('''', [(''bk'', GString ''bv''), (''ok'', GBool True)])"
proof -
  have k: "Key (otlog_Int ''message'' 5) = msgKey (New (Logger 0) None [])"
    by (simp add: otlog_Int_def New_def DefaultMsgKey_def)
  have v: "\<forall>s. Value (otlog_Int ''message'' 5) \<noteq> GString s"
    by (simp add: otlog_Int_def)
  have a: "\<forall>g \<in> set [otlog_Bool ''ok'' True]. Key g \<noteq> msgKey (New (Logger 0) None [])"
    by (simp add: otlog_Bool_def New_def DefaultMsgKey_def)
  have b: "snd (makeFields (New (Logger 0) None []) (Some [(''bk'', ''bv'')]) None
          [otlog_String ''message'' ''hello'']) = [(''bk'', GString ''bv'')]"
    by (simp add: makeFields_def New_def DefaultMsgKey_def otlog_String_def)
  have c: "snd (makeFields (New (Logger 0) None []) (Some [(''bk'', ''bv'')]) None
          ([otlog_String ''message'' ''hello''] @ [otlog_Bool ''ok'' True])) =
        [(''bk'', GString ''bv''), (''ok'', GBool True)]"
    by (simp add: makeFields_def New_def DefaultMsgKey_def otlog_String_def otlog_Bool_def)
  from non_string_message_dropped [OF k v, of "Some [(''bk'', ''bv'')]" None
      "[otlog_String ''message'' ''hello'']" "[otlog_Bool ''ok'' True]"] a b c k v
  show ?thesis by (simp add: prod_eq_iff)
qed

text \<open>
  A later field under the message key sets the message again: the integer under the
  message key is followed by a string under it, and the message is that string.
\<close>

theorem non_string_message_dropped_counterexample:
  "Key (otlog_Int ''message'' 5) = msgKey (New (Logger 0) None []) \<and>
   Value (otlog_Int ''message'' 5) = GInt 5 \<and>
   makeFields (New (Logger 0) None []) None None
     [otlog_Int ''message'' 5, otlog_String ''message'' ''later''] = (''later'', [])"
  by (simp add: makeFields_def New_def DefaultMsgKey_def otlog_String_def otlog_Int_def)

section \<open>Properties of the span operations\<close>

lemma foreach_loop_answer_true:
  "foreach_loop (record_call True) (kv # rest) calls = calls @ [kv]"
  by (simp add: record_call_def)

lemma foreach_loop_answer_false:
  "foreach_loop (record_call False) entries calls = calls @ entries"
  by (induction entries arbitrary: calls) (simp_all add: record_call_def)

lemma foreach_documented_answer_true:
  "foreach_documented (record_call True) entries calls = calls @ entries"
  by (induction entries arbitrary: calls) (simp_all add: record_call_def)

lemma foreach_documented_answer_false:
  "foreach_documented (record_call False) (kv # rest) calls = calls @ [kv]"
  by (simp add: record_call_def)

text \<open>The loop of the code is the documented loop run on the negated answer.\<close>

lemma foreach_loop_inverted:
  "foreach_loop handler entries h =
   foreach_documented (\<lambda>k v h. case handler k v h of (ok, h') \<Rightarrow> (\<not> ok, h')) entries h"
  by (induction entries arbitrary: h) (simp_all split: prod.splits)

lemma StartSpan_root_init:
  "StartSpan t name [] now init_world =
     Inr (0, emit (Trace (Tracer.logger t) [] name)
               (init_world\<lparr>spans := (spans init_world)(0 :=
                    \<lparr>tracer = t, operationName = name, startedAt = now,
                     logger = Some (Entry (Tracer.logger t) [] name), baggage = None, tags = None\<rparr>),
                  span_next := Suc 0\<rparr>))"
  by (simp add: StartSpan_def start_options_def alloc_Span_def copy_baggage_def set_logger_def
      init_world_def makeFields_def baggage_of_def emit_def)

text \<open>
  C1: a span with the baggage items \<open>a\<close> and \<open>b\<close>. With a handler that always answers
  true (go on), \<^const>\<open>ForeachBaggageItem\<close> calls it on one item only, where the documented
  contract calls it on both; with a handler that always answers false (stop), it calls it
  on both, where the contract stops after the first. The lemmas above give the same
  for every baggage and every order of visit.
\<close>

theorem ForeachBaggageItem_stops_on_true:
  "\<exists>w1. StartSpan (New (Logger 0) None []) ''parent'' [] 0 init_world = Inr (0, w1) \<and>
     (let w3 = SetBaggageItem 0 ''b'' ''2'' (SetBaggageItem 0 ''a'' ''1'' w1)
      in baggage_of w3 0 = Some [(''a'', ''1''), (''b'', ''2'')] \<and>
         ForeachBaggageItem 0 (record_call True) [] w3 = [(''a'', ''1'')] \<and>
         foreach_documented (record_call True) (range_map (baggage_of w3 0)) [] =
           [(''a'', ''1''), (''b'', ''2'')] \<and>
         ForeachBaggageItem 0 (record_call False) [] w3 = [(''a'', ''1''), (''b'', ''2'')] \<and>
         foreach_documented (record_call False) (range_map (baggage_of w3 0)) [] =
           [(''a'', ''1'')])"
proof -
  define t where "t = New (Logger 0) None []"
  define w1 where "w1 = emit (Trace (Tracer.logger t) [] ''parent'')
               (init_world\<lparr>spans := (spans init_world)(0 :=
                    \<lparr>tracer = t, operationName = ''parent'', startedAt = 0,
                     logger = Some (Entry (Tracer.logger t) [] ''parent''),
                     baggage = None, tags = None\<rparr>),
                  span_next := Suc 0\<rparr>)"
  define w3 where "w3 = SetBaggageItem 0 ''b'' ''2'' (SetBaggageItem 0 ''a'' ''1'' w1)"
  have start: "StartSpan (New (Logger 0) None []) ''parent'' [] 0 init_world = Inr (0, w1)"
    unfolding w1_def t_def by (rule StartSpan_root_init)
  have entries: "baggage_of w3 0 = Some [(''a'', ''1''), (''b'', ''2'')]"
    by (simp add: w3_def w1_def SetBaggageItem_def baggage_of_def emit_def init_world_def)
  have code_true: "ForeachBaggageItem 0 (record_call True) [] w3 = [(''a'', ''1'')]"
    by (simp add: ForeachBaggageItem_def entries record_call_def)
  have doc_true: "foreach_documented (record_call True) (range_map (baggage_of w3 0)) [] =
           [(''a'', ''1''), (''b'', ''2'')]"
    by (simp add: entries record_call_def)
  have code_false: "ForeachBaggageItem 0 (record_call False) [] w3 = [(''a'', ''1''), (''b'', ''2'')]"
    by (simp add: ForeachBaggageItem_def entries record_call_def)
  have doc_false: "foreach_documented (record_call False) (range_map (baggage_of w3 0)) [] =
           [(''a'', ''1'')]"
    by (simp add: entries record_call_def)
  from start entries code_true doc_true code_false doc_false show ?thesis
    unfolding w3_def Let_def by blast
qed

text \<open>
  C2: on the arguments \<open>"event", "soft error", "waited.millis", 1500\<close> the loop of
  \<^const>\<open>LogKV\<close> builds the string field and the integer field, and \<^const>\<open>LogKV\<close>
  returns the world as it was: the sink has received nothing. \<^const>\<open>LogFields\<close> on
  the same two fields sends one record with them.
\<close>

theorem LogKV_emits_nothing:
  "\<exists>w1. StartSpan (New (Logger 0) None []) ''op'' [] 0 init_world = Inr (0, w1) \<and>
     LogKV_fields errorKey
       [GString ''event'', GString ''soft error'', GString ''waited.millis'', GInt 1500] [] =
       [otlog_String ''event'' ''soft error'', otlog_Int ''waited.millis'' 1500] \<and>
     LogKV errorKey 0
       [GString ''event'', GString ''soft error'', GString ''waited.millis'', GInt 1500] w1 = w1 \<and>
     LogFields 0 [otlog_String ''event'' ''soft error'', otlog_Int ''waited.millis'' 1500] w1 =
       Inr (emit (InfoWithFields (Entry (Logger 0) [] ''op'')
                    [(''event'', GString ''soft error''), (''waited.millis'', GInt 1500)] '''') w1)"
proof -
  define t where "t = New (Logger 0) None []"
  define w1 where "w1 = emit (Trace (Tracer.logger t) [] ''op'')
               (init_world\<lparr>spans := (spans init_world)(0 :=
                    \<lparr>tracer = t, operationName = ''op'', startedAt = 0,
                     logger = Some (Entry (Tracer.logger t) [] ''op''), baggage = None, tags = None\<rparr>),
                  span_next := Suc 0\<rparr>)"
  have start: "StartSpan (New (Logger 0) None []) ''op'' [] 0 init_world = Inr (0, w1)"
    unfolding w1_def t_def by (rule StartSpan_root_init)
  have built: "LogKV_fields errorKey
       [GString ''event'', GString ''soft error'', GString ''waited.millis'', GInt 1500] [] =
       [otlog_String ''event'' ''soft error'', otlog_Int ''waited.millis'' 1500]"
    by simp
  have silent: "LogKV errorKey 0
       [GString ''event'', GString ''soft error'', GString ''waited.millis'', GInt 1500] w1 = w1"
    by (simp add: LogKV_def)
  have span: "spans w1 0 = \<lparr>tracer = t, operationName = ''op'', startedAt = 0,
                     logger = Some (Entry (Logger 0) [] ''op''), baggage = None, tags = None\<rparr>"
    by (simp add: w1_def emit_def t_def New_def)
  have sibling: "LogFields 0 [otlog_String ''event'' ''soft error'', otlog_Int ''waited.millis'' 1500] w1 =
       Inr (emit (InfoWithFields (Entry (Logger 0) [] ''op'')
                    [(''event'', GString ''soft error''), (''waited.millis'', GInt 1500)] '''') w1)"
    by (simp add: LogFields_def info_def makeFields_def baggage_of_def tags_of_def span
        t_def New_def DefaultMsgKey_def otlog_String_def otlog_Int_def)
  from start built silent sibling show ?thesis by blast
qed

lemma LogKV_world: "LogKV errorKey s kvs w = w"
  by (simp add: LogKV_def)

text \<open>
  C6: \<^const>\<open>Inject\<close> returns the unsupported-format error, and \<^const>\<open>Extract\<close> the nil
  context with the unsupported-format error, whatever their arguments.
\<close>

theorem Inject_Extract_unsupported:
  "Inject t sm format carrier = Some ErrUnsupportedFormat \<and>
   Extract t format carrier = (NilContext, Some ErrUnsupportedFormat)"
  by (simp add: Inject_def Extract_def)

lemma SetTag_idem: "SetTag s k v (SetTag s k v w) = SetTag s k v w"
  by (cases "tags (spans w s)") (simp_all add: SetTag_def)

lemma SetTag_overwrite: "SetTag s k v2 (SetTag s k v1 w) = SetTag s k v2 w"
  by (cases "tags (spans w s)") (simp_all add: SetTag_def)

lemma SetBaggageItem_idem: "SetBaggageItem s k v (SetBaggageItem s k v w) = SetBaggageItem s k v w"
  by (cases "baggage (spans w s)") (simp_all add: SetBaggageItem_def)

lemma SetBaggageItem_overwrite:
  "SetBaggageItem s k v2 (SetBaggageItem s k v1 w) = SetBaggageItem s k v2 w"
  by (cases "baggage (spans w s)") (simp_all add: SetBaggageItem_def)

lemma tags_of_SetTag:
  "\<exists>m. tags_of (SetTag s k v w) s = Some m \<and> map_of m k = Some v"
  by (cases "tags (spans w s)") (simp_all add: SetTag_def tags_of_def update_conv')

lemma BaggageItem_SetBaggageItem: "BaggageItem s k (SetBaggageItem s k v w) = v"
  by (cases "baggage (spans w s)") (simp_all add: SetBaggageItem_def BaggageItem_def update_conv')

text \<open>
  C7: setting a tag or a baggage item twice to the same value leaves the world that
  setting it once leaves; setting it to \<open>v1\<close> and then to \<open>v2\<close> leaves the world
  that setting it to \<open>v2\<close> alone leaves, and the key then reads \<open>v2\<close>.
\<close>

theorem set_idempotent_overwriting:
  "SetTag s k v (SetTag s k v w) = SetTag s k v w \<and>
   SetBaggageItem s k x (SetBaggageItem s k x w) = SetBaggageItem s k x w \<and>
   SetTag s k v2 (SetTag s k v1 w) = SetTag s k v2 w \<and>
   SetBaggageItem s k x2 (SetBaggageItem s k x1 w) = SetBaggageItem s k x2 w \<and>
   (\<exists>m. tags_of (SetTag s k v2 (SetTag s k v1 w)) s = Some m \<and> map_of m k = Some v2) \<and>
   BaggageItem s k (SetBaggageItem s k x2 (SetBaggageItem s k x1 w)) = x2"
  by (simp only: SetTag_idem SetTag_overwrite SetBaggageItem_idem SetBaggageItem_overwrite
      tags_of_SetTag BaggageItem_SetBaggageItem simp_thms)

section \<open>Copying the baggage and the invariant\<close>

subsection \<open>Setting a baggage item: what it leaves alone\<close>

lemma SetBaggageItem_Some:
  "baggage (spans w s) = Some m \<Longrightarrow>
   SetBaggageItem s k v w = w\<lparr>bmaps := (bmaps w)(m := AList.update k v (bmaps w m))\<rparr>"
  by (simp add: SetBaggageItem_def)

lemma SetBaggageItem_None:
  "baggage (spans w s) = None \<Longrightarrow>
   SetBaggageItem s k v w =
     w\<lparr>spans := (spans w)(s := (spans w s)\<lparr>baggage := Some (bmap_next w)\<rparr>),
       bmaps := (bmaps w)(bmap_next w := [(k, v)]),
       bmap_next := Suc (bmap_next w)\<rparr>"
  by (simp add: SetBaggageItem_def)

lemma update_absent: "k \<notin> fst ` set l \<Longrightarrow> AList.update k v l = l @ [(k, v)]"
  by (induction l) auto

lemma foldl_update_distinct:
  "distinct (map fst xs) \<Longrightarrow> fst ` set l \<inter> fst ` set xs = {} \<Longrightarrow>
   foldl (\<lambda>l kv. AList.update (fst kv) (snd kv) l) l xs = l @ xs"
proof (induction xs arbitrary: l)
  case Nil
  show ?case by simp
next
  case (Cons kv rest)
  have absent: "fst kv \<notin> fst ` set l" using Cons.prems(2) by auto
  have step: "AList.update (fst kv) (snd kv) l = l @ [kv]"
    using update_absent [OF absent, of "snd kv"] by simp
  have "fst ` set (l @ [kv]) \<inter> fst ` set rest = {}"
    using Cons.prems by auto
  then have "foldl (\<lambda>l kv. AList.update (fst kv) (snd kv) l) (l @ [kv]) rest = (l @ [kv]) @ rest"
    using Cons.IH [of "l @ [kv]"] Cons.prems(1) by simp
  then show ?case using step by simp
qed

lemma copy_loop_Some:
  "baggage (spans w c) = Some m \<Longrightarrow>
   copy_loop c xs w =
     w\<lparr>bmaps := (bmaps w)(m := foldl (\<lambda>l kv. AList.update (fst kv) (snd kv) l) (bmaps w m) xs)\<rparr>"
proof (induction xs arbitrary: w)
  case Nil
  show ?case by simp
next
  case (Cons kv rest)
  let ?w = "SetBaggageItem c (fst kv) (snd kv) w"
  have w: "?w = w\<lparr>bmaps := (bmaps w)(m := AList.update (fst kv) (snd kv) (bmaps w m))\<rparr>"
    using Cons.prems by (rule SetBaggageItem_Some)
  then have "baggage (spans ?w c) = Some m" using Cons.prems by simp
  then have "copy_loop c rest ?w =
     ?w\<lparr>bmaps := (bmaps ?w)(m := foldl (\<lambda>l kv. AList.update (fst kv) (snd kv) l) (bmaps ?w m) rest)\<rparr>"
    by (rule Cons.IH)
  also have "\<dots> = w\<lparr>bmaps := (bmaps w)(m := foldl (\<lambda>l kv. AList.update (fst kv) (snd kv) l) (bmaps w m) (kv # rest))\<rparr>"
    unfolding w by (cases w) simp
  finally show ?case by (simp only: copy_loop.simps)
qed

lemma copy_loop_None:
  assumes "baggage (spans w c) = None" and "distinct (map fst (kv # rest))"
  shows "copy_loop c (kv # rest) w =
     w\<lparr>spans := (spans w)(c := (spans w c)\<lparr>baggage := Some (bmap_next w)\<rparr>),
       bmaps := (bmaps w)(bmap_next w := kv # rest),
       bmap_next := Suc (bmap_next w)\<rparr>"
proof -
  let ?w = "SetBaggageItem c (fst kv) (snd kv) w"
  have w: "?w = w\<lparr>spans := (spans w)(c := (spans w c)\<lparr>baggage := Some (bmap_next w)\<rparr>),
       bmaps := (bmaps w)(bmap_next w := [kv]),
       bmap_next := Suc (bmap_next w)\<rparr>"
    using SetBaggageItem_None [OF assms(1), of "fst kv" "snd kv"] by simp
  then have some: "baggage (spans ?w c) = Some (bmap_next w)" by simp
  have "foldl (\<lambda>l kv. AList.update (fst kv) (snd kv) l) [kv] rest = [kv] @ rest"
    using assms(2) by (intro foldl_update_distinct) auto
  then show ?thesis
    using copy_loop_Some [OF some, of rest] by (simp add: w)
qed

lemma BaggageItem_range:
  "BaggageItem s k w =
     (case map_of (range_map (baggage_of w s)) k of None \<Rightarrow> '''' | Some v \<Rightarrow> v)"
  by (cases "baggage (spans w s)") (simp_all add: BaggageItem_def baggage_of_def)

text \<open>After the copy the new span holds the parent's entries, in the parent's order.\<close>

lemma copy_baggage_entries:
  assumes "baggage (spans w c) = None" and "distinct (map fst (range_map (baggage_of w p)))"
  shows "range_map (baggage_of (copy_baggage (Some p) c w) c) = range_map (baggage_of w p)"
proof (cases "range_map (baggage_of w p)")
  case Nil
  then show ?thesis using assms(1) by (simp add: copy_baggage_def baggage_of_def)
next
  case (Cons kv rest)
  then show ?thesis
    using assms copy_loop_None [of w c kv rest]
    by (simp add: copy_baggage_def baggage_of_def)
qed

lemma copy_baggage_frame:
  assumes "baggage (spans w c) = None" and "distinct (map fst (range_map (baggage_of w p)))"
  shows "\<exists>b nb. copy_baggage (Some p) c w =
           w\<lparr>spans := (spans w)(c := (spans w c)\<lparr>baggage := b\<rparr>),
             bmaps := (bmaps w)(bmap_next w := nb),
             bmap_next := (if b = None then bmap_next w else Suc (bmap_next w))\<rparr> \<and>
           (b = None \<and> nb = bmaps w (bmap_next w) \<and> range_map (baggage_of w p) = [] \<or>
            b = Some (bmap_next w) \<and> nb = range_map (baggage_of w p) \<and> nb \<noteq> [])"
proof (cases "range_map (baggage_of w p)")
  case Nil
  have "w = w\<lparr>spans := (spans w)(c := (spans w c)\<lparr>baggage := None\<rparr>),
             bmaps := (bmaps w)(bmap_next w := bmaps w (bmap_next w)),
             bmap_next := bmap_next w\<rparr>"
    using assms(1) by (cases w) (simp add: fun_eq_iff)
  hence "w = w\<lparr>spans := (spans w)(c := (spans w c)\<lparr>baggage := None\<rparr>),
             bmaps := (bmaps w)(bmap_next w := bmaps w (bmap_next w)),
             bmap_next := (if (None :: nat option) = None then bmap_next w else Suc (bmap_next w))\<rparr>"
    by simp
  moreover have "copy_baggage (Some p) c w = w" using Nil by (simp add: copy_baggage_def)
  ultimately show ?thesis
    using Nil by (intro exI [of _ None] exI [of _ "bmaps w (bmap_next w)"]) simp
next
  case (Cons kv rest)
  then show ?thesis
    using assms copy_loop_None [of w c kv rest]
    by (intro exI [of _ "Some (bmap_next w)"] exI [of _ "kv # rest"])
       (simp add: copy_baggage_def)
qed

subsection \<open>The invariant\<close>

lemma wf_span_iff:
  "wf_span w s \<longleftrightarrow>
     Span.logger (spans w s) \<noteq> None \<and>
     (\<forall>m. baggage (spans w s) = Some m \<longrightarrow> m < bmap_next w \<and> distinct (map fst (bmaps w m))) \<and>
     (\<forall>m. tags (spans w s) = Some m \<longrightarrow> m < tmap_next w \<and> distinct (map fst (tmaps w m)))"
  by (simp add: wf_span_def split: option.split)

lemma no_shared_map_iff:
  "no_shared_map w s s' \<longleftrightarrow>
     (\<forall>m. baggage (spans w s) = Some m \<longrightarrow> baggage (spans w s') \<noteq> Some m) \<and>
     (\<forall>m. tags (spans w s) = Some m \<longrightarrow> tags (spans w s') \<noteq> Some m)"
  by (simp add: no_shared_map_def split: option.split)

lemma wf_world_iff:
  "wf_world w \<longleftrightarrow>
     (\<forall>s < span_next w. wf_span w s \<and> (\<forall>s' < span_next w. s \<noteq> s' \<longrightarrow> no_shared_map w s s'))"
  by (simp add: wf_world_def Ball_def)

lemma wf_world_logger:
  "wf_world w \<Longrightarrow> s < span_next w \<Longrightarrow> Span.logger (spans w s) \<noteq> None"
  unfolding wf_world_iff wf_span_iff by blast

lemma wf_world_baggage:
  "wf_world w \<Longrightarrow> s < span_next w \<Longrightarrow> baggage (spans w s) = Some m \<Longrightarrow>
   m < bmap_next w \<and> distinct (map fst (bmaps w m))"
  unfolding wf_world_iff wf_span_iff by blast

lemma wf_world_tags:
  "wf_world w \<Longrightarrow> s < span_next w \<Longrightarrow> tags (spans w s) = Some m \<Longrightarrow>
   m < tmap_next w \<and> distinct (map fst (tmaps w m))"
  unfolding wf_world_iff wf_span_iff by blast

lemma wf_world_baggage_own:
  "wf_world w \<Longrightarrow> s < span_next w \<Longrightarrow> s' < span_next w \<Longrightarrow> s \<noteq> s' \<Longrightarrow>
   baggage (spans w s) = Some m \<Longrightarrow> baggage (spans w s') \<noteq> Some m"
  unfolding wf_world_iff no_shared_map_iff by blast

lemma wf_world_tags_own:
  "wf_world w \<Longrightarrow> s < span_next w \<Longrightarrow> s' < span_next w \<Longrightarrow> s \<noteq> s' \<Longrightarrow>
   tags (spans w s) = Some m \<Longrightarrow> tags (spans w s') \<noteq> Some m"
  unfolding wf_world_iff no_shared_map_iff by blast

lemma wf_worldI:
  assumes "\<And>s. s < span_next w \<Longrightarrow> Span.logger (spans w s) \<noteq> None"
    and "\<And>s m. s < span_next w \<Longrightarrow> baggage (spans w s) = Some m \<Longrightarrow>
           m < bmap_next w \<and> distinct (map fst (bmaps w m))"
    and "\<And>s m. s < span_next w \<Longrightarrow> tags (spans w s) = Some m \<Longrightarrow>
           m < tmap_next w \<and> distinct (map fst (tmaps w m))"
    and "\<And>s s' m. s < span_next w \<Longrightarrow> s' < span_next w \<Longrightarrow> s \<noteq> s' \<Longrightarrow>
           baggage (spans w s) = Some m \<Longrightarrow> baggage (spans w s') \<noteq> Some m"
    and "\<And>s s' m. s < span_next w \<Longrightarrow> s' < span_next w \<Longrightarrow> s \<noteq> s' \<Longrightarrow>
           tags (spans w s) = Some m \<Longrightarrow> tags (spans w s') \<noteq> Some m"
  shows "wf_world w"
  unfolding wf_world_iff wf_span_iff no_shared_map_iff
  using assms by blast

lemma wf_init_world: "wf_world init_world"
  by (simp add: wf_world_def init_world_def)

lemma entries_distinct:
  assumes "wf_world w" and "s < span_next w"
  shows "distinct (map fst (range_map (baggage_of w s)))"
  using wf_world_baggage [OF assms] by (cases "baggage (spans w s)") (simp_all add: baggage_of_def)




subsection \<open>The result of StartSpan\<close>

lemma StartSpan_with_parent:
  assumes "parent_loop (References (start_options opts)) None = Some p"
    and "Span.logger (spans (copy_baggage (Some p) (span_next w) (alloc_Span t name now w)) p) = Some e"
  shows "StartSpan t name opts now w =
     Inr (span_next w,
          set_logger (span_next w)
            (Entry e (snd (makeFields t
                (baggage_of (copy_baggage (Some p) (span_next w) (alloc_Span t name now w)) (span_next w))
                (Some (tags_loop (range_map (Tags (start_options opts))) [])) [])) name)
            (emit (Trace e (snd (makeFields t
                (baggage_of (copy_baggage (Some p) (span_next w) (alloc_Span t name now w)) (span_next w))
                (Some (tags_loop (range_map (Tags (start_options opts))) [])) [])) name)
               (copy_baggage (Some p) (span_next w) (alloc_Span t name now w))))"
  unfolding StartSpan_def Let_def assms(1)
  by (simp add: assms(2) split: prod.splits)

lemma StartSpan_without_parent:
  assumes "parent_loop (References (start_options opts)) None = None"
  shows "StartSpan t name opts now w =
     Inr (span_next w,
          set_logger (span_next w)
            (Entry (Tracer.logger t) (snd (makeFields t None
                (Some (tags_loop (range_map (Tags (start_options opts))) [])) [])) name)
            (emit (Trace (Tracer.logger t) (snd (makeFields t None
                (Some (tags_loop (range_map (Tags (start_options opts))) [])) [])) name)
               (alloc_Span t name now w)))"
  unfolding StartSpan_def Let_def assms(1)
  by (simp add: copy_baggage_def baggage_of_def alloc_Span_def split: prod.splits)


lemma alloc_Span_other: "s \<noteq> span_next w \<Longrightarrow> spans (alloc_Span t name now w) s = spans w s"
  by (simp add: alloc_Span_def)

lemma alloc_Span_bmaps: "bmaps (alloc_Span t name now w) = bmaps w"
  by (simp add: alloc_Span_def)

lemma alloc_Span_baggage_of:
  "s \<noteq> span_next w \<Longrightarrow> baggage_of (alloc_Span t name now w) s = baggage_of w s"
  by (simp add: alloc_Span_def baggage_of_def)

lemma alloc_Span_new: "baggage (spans (alloc_Span t name now w) (span_next w)) = None"
  by (simp add: alloc_Span_def)

lemma StartSpan_child:
  assumes wf: "wf_world w" and p: "p < span_next w"
    and par: "parent_loop (References (start_options opts)) None = Some p"
  shows "\<exists>e b nb f.
           Span.logger (spans w p) = Some e \<and>
           f = snd (makeFields t (baggage_of w p)
                      (Some (tags_loop (range_map (Tags (start_options opts))) [])) []) \<and>
           (b = None \<and> nb = bmaps w (bmap_next w) \<and> range_map (baggage_of w p) = [] \<or>
            b = Some (bmap_next w) \<and> nb = range_map (baggage_of w p) \<and> nb \<noteq> []) \<and>
           StartSpan t name opts now w =
             Inr (span_next w,
                  w\<lparr>spans := (spans w)(span_next w :=
                       \<lparr>tracer = t, operationName = name, startedAt = now,
                        logger = Some (Entry e f name), baggage = b, tags = None\<rparr>),
                    span_next := Suc (span_next w),
                    bmaps := (bmaps w)(bmap_next w := nb),
                    bmap_next := (if b = None then bmap_next w else Suc (bmap_next w)),
                    sink := sink w @ [Trace e f name]\<rparr>)"
proof -
  let ?c = "span_next w"
  let ?w1 = "alloc_Span t name now w"
  let ?w2 = "copy_baggage (Some p) ?c ?w1"
  let ?tags = "Some (tags_loop (range_map (Tags (start_options opts))) [])"
  let ?f = "snd (makeFields t (baggage_of w p) ?tags [])"
  from wf_world_logger [OF wf p] obtain e where e: "Span.logger (spans w p) = Some e" by auto
  have pc: "p \<noteq> ?c" using p by simp
  have bag1: "baggage_of ?w1 p = baggage_of w p"
    using pc by (rule alloc_Span_baggage_of)
  have dist: "distinct (map fst (range_map (baggage_of ?w1 p)))"
    unfolding bag1 using wf p by (rule entries_distinct)
  from copy_baggage_frame [OF alloc_Span_new dist]
  obtain b nb where w2: "?w2 =
           ?w1\<lparr>spans := (spans ?w1)(?c := (spans ?w1 ?c)\<lparr>baggage := b\<rparr>),
             bmaps := (bmaps ?w1)(bmap_next ?w1 := nb),
             bmap_next := (if b = None then bmap_next ?w1 else Suc (bmap_next ?w1))\<rparr>"
    and b: "b = None \<and> nb = bmaps ?w1 (bmap_next ?w1) \<and> range_map (baggage_of ?w1 p) = [] \<or>
            b = Some (bmap_next ?w1) \<and> nb = range_map (baggage_of ?w1 p) \<and> nb \<noteq> []"
    by blast
  have entries: "range_map (baggage_of ?w2 ?c) = range_map (baggage_of w p)"
    using copy_baggage_entries [OF alloc_Span_new dist] by (simp only: bag1)
  have f: "snd (makeFields t (baggage_of ?w2 ?c) ?tags []) = ?f"
    by (simp only: makeFields_def entries)
  have lg: "Span.logger (spans ?w2 p) = Some e"
    unfolding w2 using pc e by (simp add: alloc_Span_def)
  have start: "StartSpan t name opts now w =
     Inr (?c, set_logger ?c (Entry e ?f name) (emit (Trace e ?f name) ?w2))"
    using StartSpan_with_parent [OF par lg] by (simp only: f)
  have final: "set_logger ?c (Entry e ?f name) (emit (Trace e ?f name) ?w2) =
                  w\<lparr>spans := (spans w)(?c :=
                       \<lparr>tracer = t, operationName = name, startedAt = now,
                        logger = Some (Entry e ?f name), baggage = b, tags = None\<rparr>),
                    span_next := Suc ?c,
                    bmaps := (bmaps w)(bmap_next w := nb),
                    bmap_next := (if b = None then bmap_next w else Suc (bmap_next w)),
                    sink := sink w @ [Trace e ?f name]\<rparr>"
    unfolding w2 by (cases w) (simp add: alloc_Span_def set_logger_def emit_def)
  have shape: "b = None \<and> nb = bmaps w (bmap_next w) \<and> range_map (baggage_of w p) = [] \<or>
            b = Some (bmap_next w) \<and> nb = range_map (baggage_of w p) \<and> nb \<noteq> []"
    using b unfolding bag1 by (simp add: alloc_Span_def)
  from e shape start final show ?thesis by (simp only: ) blast
qed



lemma SetBaggageItem_other:
  assumes "s \<noteq> c"
    and "\<forall>m. baggage (spans w c) = Some m \<longrightarrow> m < bmap_next w \<and> baggage (spans w s) \<noteq> Some m"
  shows "baggage_of (SetBaggageItem s k v w) c = baggage_of w c"
proof (cases "baggage (spans w s)")
  case None
  show ?thesis
    unfolding SetBaggageItem_None [OF None] using assms
    by (cases "baggage (spans w c)") (auto simp add: baggage_of_def)
next
  case (Some m)
  show ?thesis
    unfolding SetBaggageItem_Some [OF Some] using assms Some
    by (cases "baggage (spans w c)") (auto simp add: baggage_of_def)
qed

text \<open>The child reads what the parent of the loop reads, and holds a map of its own.\<close>

lemma StartSpan_copies_baggage:
  assumes wf: "wf_world w" and p: "p < span_next w"
    and par: "parent_loop (References (start_options opts)) None = Some p"
  shows "\<exists>c w'. StartSpan t name opts now w = Inr (c, w') \<and>
           (\<forall>k. BaggageItem c k w' = BaggageItem p k w) \<and>
           (\<forall>k. BaggageItem p k w' = BaggageItem p k w) \<and>
           (\<forall>k v2 k'. BaggageItem c k' (SetBaggageItem p k v2 w') = BaggageItem c k' w')"
proof -
  let ?c = "span_next w"
  from StartSpan_child [OF wf p par, of t name now]
  obtain e b nb f w' where
      shape: "b = None \<and> nb = bmaps w (bmap_next w) \<and> range_map (baggage_of w p) = [] \<or>
              b = Some (bmap_next w) \<and> nb = range_map (baggage_of w p) \<and> nb \<noteq> []"
    and start: "StartSpan t name opts now w = Inr (?c, w')"
    and w': "w' = w\<lparr>spans := (spans w)(?c :=
                       \<lparr>tracer = t, operationName = name, startedAt = now,
                        logger = Some (Entry e f name), baggage = b, tags = None\<rparr>),
                    span_next := Suc ?c,
                    bmaps := (bmaps w)(bmap_next w := nb),
                    bmap_next := (if b = None then bmap_next w else Suc (bmap_next w)),
                    sink := sink w @ [Trace e f name]\<rparr>"
    by blast
  have pc: "p \<noteq> ?c" using p by simp
  have alloc: "\<forall>m. baggage (spans w p) = Some m \<longrightarrow> m < bmap_next w"
    using wf_world_baggage [OF wf p] by blast
  have child: "range_map (baggage_of w' ?c) = range_map (baggage_of w p)"
    using shape by (auto simp add: w' baggage_of_def)
  have parent: "baggage_of w' p = baggage_of w p"
    using pc alloc by (cases "baggage (spans w p)") (auto simp add: w' baggage_of_def)
  have same: "\<forall>k. BaggageItem ?c k w' = BaggageItem p k w"
    by (simp only: BaggageItem_range child) simp
  have kept: "\<forall>k. BaggageItem p k w' = BaggageItem p k w"
    by (simp only: BaggageItem_range parent) simp
  have own: "\<forall>m. baggage (spans w' ?c) = Some m \<longrightarrow>
               m < bmap_next w' \<and> baggage (spans w' p) \<noteq> Some m"
    using shape pc alloc by (auto simp add: w')
  have later: "\<forall>k v2 k'. BaggageItem ?c k' (SetBaggageItem p k v2 w') = BaggageItem ?c k' w'"
    using SetBaggageItem_other [OF pc own] by (simp only: BaggageItem_range) simp
  from start same kept later show ?thesis by blast
qed





text \<open>The same for the one option \<^verbatim>\<open>ChildOf(p.Context())\<close>, as the package's test starts its child.\<close>

lemma StartSpan_ChildOf_copies_baggage:
  assumes "wf_world w" and "p < span_next w"
  shows "\<exists>c w'. StartSpan t name [ChildOf (Context p)] now w = Inr (c, w') \<and>
           (\<forall>k. BaggageItem c k w' = BaggageItem p k w) \<and>
           (\<forall>k v2 k'. BaggageItem c k' (SetBaggageItem p k v2 w') = BaggageItem c k' w')"
proof -
  have "parent_loop (References (start_options [ChildOf (Context p)])) None = Some p"
    by (simp add: start_options_def ChildOf_def Context_def)
  from StartSpan_copies_baggage [OF assms this, of t name now] show ?thesis by blast
qed

subsection \<open>Each step of the store keeps the invariant\<close>

lemma wf_world_sink: "wf_world (w\<lparr>sink := x\<rparr>) = wf_world w"
  by (simp add: wf_world_iff wf_span_iff no_shared_map_iff)

lemma wf_world_new_bmap:
  assumes wf: "wf_world w" and s: "s < span_next w" and none: "baggage (spans w s) = None"
    and dist: "distinct (map fst xs)"
  shows "wf_world (w\<lparr>spans := (spans w)(s := spans w s\<lparr>baggage := Some (bmap_next w)\<rparr>),
                    bmaps := (bmaps w)(bmap_next w := xs),
                    bmap_next := Suc (bmap_next w)\<rparr>)"
    (is "wf_world ?w'")
proof (rule wf_worldI)
  have fresh: "\<And>s' m. s' < span_next w \<Longrightarrow> baggage (spans w s') = Some m \<Longrightarrow> m \<noteq> bmap_next w"
    using wf_world_baggage [OF wf] by fastforce
  {
    fix s' assume "s' < span_next ?w'"
    then have s': "s' < span_next w" by simp
    show "Span.logger (spans ?w' s') \<noteq> None"
      using wf_world_logger [OF wf s'] by auto
  next
    fix s' m assume "s' < span_next ?w'" and "baggage (spans ?w' s') = Some m"
    then show "m < bmap_next ?w' \<and> distinct (map fst (bmaps ?w' m))"
      using wf_world_baggage [OF wf, of s' m] dist by (auto split: if_splits)
  next
    fix s' m assume "s' < span_next ?w'" and "tags (spans ?w' s') = Some m"
    then show "m < tmap_next ?w' \<and> distinct (map fst (tmaps ?w' m))"
      using wf_world_tags [OF wf, of s' m] by (auto split: if_splits)
  next
    fix s1 s2 m
    assume "s1 < span_next ?w'" and "s2 < span_next ?w'" and "s1 \<noteq> s2"
      and "baggage (spans ?w' s1) = Some m"
    then show "baggage (spans ?w' s2) \<noteq> Some m"
      using wf_world_baggage_own [OF wf, of s1 s2 m] fresh [of s1 m] fresh [of s2 m]
      by (auto split: if_splits)
  next
    fix s1 s2 m
    assume "s1 < span_next ?w'" and "s2 < span_next ?w'" and "s1 \<noteq> s2"
      and "tags (spans ?w' s1) = Some m"
    then show "tags (spans ?w' s2) \<noteq> Some m"
      using wf_world_tags_own [OF wf, of s1 s2 m] by (auto split: if_splits)
  }
qed


lemma wf_world_new_tmap:
  assumes wf: "wf_world w" and s: "s < span_next w" and none: "tags (spans w s) = None"
    and dist: "distinct (map fst xs)"
  shows "wf_world (w\<lparr>spans := (spans w)(s := spans w s\<lparr>tags := Some (tmap_next w)\<rparr>),
                    tmaps := (tmaps w)(tmap_next w := xs),
                    tmap_next := Suc (tmap_next w)\<rparr>)"
    (is "wf_world ?w'")
proof (rule wf_worldI)
  have fresh: "\<And>s' m. s' < span_next w \<Longrightarrow> tags (spans w s') = Some m \<Longrightarrow> m \<noteq> tmap_next w"
    using wf_world_tags [OF wf] by fastforce
  {
    fix s' assume "s' < span_next ?w'"
    then have s': "s' < span_next w" by simp
    show "Span.logger (spans ?w' s') \<noteq> None"
      using wf_world_logger [OF wf s'] by auto
  next
    fix s' m assume "s' < span_next ?w'" and "tags (spans ?w' s') = Some m"
    then show "m < tmap_next ?w' \<and> distinct (map fst (tmaps ?w' m))"
      using wf_world_tags [OF wf, of s' m] dist by (auto split: if_splits)
  next
    fix s' m assume "s' < span_next ?w'" and "baggage (spans ?w' s') = Some m"
    then show "m < bmap_next ?w' \<and> distinct (map fst (bmaps ?w' m))"
      using wf_world_baggage [OF wf, of s' m] by (auto split: if_splits)
  next
    fix s1 s2 m
    assume "s1 < span_next ?w'" and "s2 < span_next ?w'" and "s1 \<noteq> s2"
      and "tags (spans ?w' s1) = Some m"
    then show "tags (spans ?w' s2) \<noteq> Some m"
      using wf_world_tags_own [OF wf, of s1 s2 m] fresh [of s1 m] fresh [of s2 m]
      by (auto split: if_splits)
  next
    fix s1 s2 m
    assume "s1 < span_next ?w'" and "s2 < span_next ?w'" and "s1 \<noteq> s2"
      and "baggage (spans ?w' s1) = Some m"
    then show "baggage (spans ?w' s2) \<noteq> Some m"
      using wf_world_baggage_own [OF wf, of s1 s2 m] by (auto split: if_splits)
  }
qed

lemma wf_world_set_tmap:
  assumes wf: "wf_world w" and dist: "distinct (map fst xs)"
  shows "wf_world (w\<lparr>tmaps := (tmaps w)(m := xs)\<rparr>)" (is "wf_world ?w'")
proof (rule wf_worldI)
  {
    fix s' assume "s' < span_next ?w'"
    then have s': "s' < span_next w" by simp
    show "Span.logger (spans ?w' s') \<noteq> None"
      using wf_world_logger [OF wf s'] by auto
  next
    fix s' m' assume "s' < span_next ?w'" and "tags (spans ?w' s') = Some m'"
    then show "m' < tmap_next ?w' \<and> distinct (map fst (tmaps ?w' m'))"
      using wf_world_tags [OF wf, of s' m'] dist by (auto split: if_splits)
  next
    fix s' m' assume "s' < span_next ?w'" and "baggage (spans ?w' s') = Some m'"
    then show "m' < bmap_next ?w' \<and> distinct (map fst (bmaps ?w' m'))"
      using wf_world_baggage [OF wf, of s' m'] by (auto split: if_splits)
  next
    fix s1 s2 m'
    assume "s1 < span_next ?w'" and "s2 < span_next ?w'" and "s1 \<noteq> s2"
      and "tags (spans ?w' s1) = Some m'"
    then show "tags (spans ?w' s2) \<noteq> Some m'"
      using wf_world_tags_own [OF wf, of s1 s2 m'] by (auto split: if_splits)
  next
    fix s1 s2 m'
    assume "s1 < span_next ?w'" and "s2 < span_next ?w'" and "s1 \<noteq> s2"
      and "baggage (spans ?w' s1) = Some m'"
    then show "baggage (spans ?w' s2) \<noteq> Some m'"
      using wf_world_baggage_own [OF wf, of s1 s2 m'] by (auto split: if_splits)
  }
qed


lemma wf_world_new_span:
  assumes wf: "wf_world w" and lg: "Span.logger sp \<noteq> None"
    and bg: "baggage sp = None" and tg: "tags sp = None"
  shows "wf_world (w\<lparr>spans := (spans w)(span_next w := sp), span_next := Suc (span_next w)\<rparr>)"
    (is "wf_world ?w'")
proof (rule wf_worldI)
  {
    fix s' assume "s' < span_next ?w'"
    then show "Span.logger (spans ?w' s') \<noteq> None"
      using wf_world_logger [OF wf, of s'] lg by (auto simp add: less_Suc_eq)
  next
    fix s' m assume "s' < span_next ?w'" and "baggage (spans ?w' s') = Some m"
    then show "m < bmap_next ?w' \<and> distinct (map fst (bmaps ?w' m))"
      using wf_world_baggage [OF wf, of s' m] bg by (auto simp add: less_Suc_eq split: if_splits)
  next
    fix s' m assume "s' < span_next ?w'" and "tags (spans ?w' s') = Some m"
    then show "m < tmap_next ?w' \<and> distinct (map fst (tmaps ?w' m))"
      using wf_world_tags [OF wf, of s' m] tg by (auto simp add: less_Suc_eq split: if_splits)
  next
    fix s1 s2 m
    assume "s1 < span_next ?w'" and "s2 < span_next ?w'" and "s1 \<noteq> s2"
      and "baggage (spans ?w' s1) = Some m"
    then show "baggage (spans ?w' s2) \<noteq> Some m"
      using wf_world_baggage_own [OF wf, of s1 s2 m] bg
      by (auto simp add: less_Suc_eq split: if_splits)
  next
    fix s1 s2 m
    assume "s1 < span_next ?w'" and "s2 < span_next ?w'" and "s1 \<noteq> s2"
      and "tags (spans ?w' s1) = Some m"
    then show "tags (spans ?w' s2) \<noteq> Some m"
      using wf_world_tags_own [OF wf, of s1 s2 m] tg
      by (auto simp add: less_Suc_eq split: if_splits)
  }
qed


lemma SetTag_Some:
  "tags (spans w s) = Some m \<Longrightarrow>
   SetTag s k v w = w\<lparr>tmaps := (tmaps w)(m := AList.update k v (tmaps w m))\<rparr>"
  by (simp add: SetTag_def)

lemma SetTag_None:
  "tags (spans w s) = None \<Longrightarrow>
   SetTag s k v w =
     w\<lparr>spans := (spans w)(s := (spans w s)\<lparr>tags := Some (tmap_next w)\<rparr>),
       tmaps := (tmaps w)(tmap_next w := [(k, v)]),
       tmap_next := Suc (tmap_next w)\<rparr>"
  by (simp add: SetTag_def)

lemma wf_world_SetTag:
  assumes wf: "wf_world w" and s: "s < span_next w"
  shows "wf_world (SetTag s k v w)"
proof (cases "tags (spans w s)")
  case None
  show ?thesis
    unfolding SetTag_None [OF None]
    using wf s None by (rule wf_world_new_tmap) simp
next
  case (Some m)
  have "distinct (map fst (AList.update k v (tmaps w m)))"
    using wf_world_tags [OF wf s Some] by (simp add: distinct_update)
  then show ?thesis
    unfolding SetTag_Some [OF Some]
    using wf by (intro wf_world_set_tmap)
qed



text \<open>\<^const>\<open>StartSpan\<close> returns, and keeps the invariant, when its parent is an allocated span.\<close>

lemma wf_world_StartSpan:
  assumes wf: "wf_world w"
    and par: "\<forall>p. parent_loop (References (start_options opts)) None = Some p \<longrightarrow> p < span_next w"
  shows "\<exists>w'. StartSpan t name opts now w = Inr (span_next w, w') \<and> wf_world w' \<and>
              span_next w' = Suc (span_next w)"
proof (cases "parent_loop (References (start_options opts)) None")
  case None
  let ?f = "snd (makeFields t None (Some (tags_loop (range_map (Tags (start_options opts))) [])) [])"
  let ?sp = "\<lparr>tracer = t, operationName = name, startedAt = now,
              logger = Some (Entry (Tracer.logger t) ?f name), baggage = None, tags = None\<rparr>"
  let ?w' = "set_logger (span_next w) (Entry (Tracer.logger t) ?f name)
               (emit (Trace (Tracer.logger t) ?f name) (alloc_Span t name now w))"
  have start: "StartSpan t name opts now w = Inr (span_next w, ?w')"
    using None by (rule StartSpan_without_parent)
  have eq: "?w' = (w\<lparr>spans := (spans w)(span_next w := ?sp), span_next := Suc (span_next w)\<rparr>)
                   \<lparr>sink := sink w @ [Trace (Tracer.logger t) ?f name]\<rparr>"
    by (cases w) (simp add: alloc_Span_def set_logger_def emit_def)
  have "wf_world (w\<lparr>spans := (spans w)(span_next w := ?sp), span_next := Suc (span_next w)\<rparr>)"
    using wf by (rule wf_world_new_span) simp_all
  then have "wf_world ?w'" unfolding eq by (simp only: wf_world_sink)
  moreover have "span_next ?w' = Suc (span_next w)" unfolding eq by simp
  ultimately show ?thesis using start by blast
next
  case (Some p)
  then have p: "p < span_next w" using par by simp
  let ?c = "span_next w"
  from StartSpan_child [OF wf p Some, of t name now]
  obtain e b nb f w' where
      shape: "b = None \<and> nb = bmaps w (bmap_next w) \<and> range_map (baggage_of w p) = [] \<or>
              b = Some (bmap_next w) \<and> nb = range_map (baggage_of w p) \<and> nb \<noteq> []"
    and start: "StartSpan t name opts now w = Inr (?c, w')"
    and w': "w' = w\<lparr>spans := (spans w)(?c :=
                       \<lparr>tracer = t, operationName = name, startedAt = now,
                        logger = Some (Entry e f name), baggage = b, tags = None\<rparr>),
                    span_next := Suc ?c,
                    bmaps := (bmaps w)(bmap_next w := nb),
                    bmap_next := (if b = None then bmap_next w else Suc (bmap_next w)),
                    sink := sink w @ [Trace e f name]\<rparr>"
    by blast
  let ?sp = "\<lparr>tracer = t, operationName = name, startedAt = now,
              logger = Some (Entry e f name), baggage = None, tags = None\<rparr>"
  let ?w1 = "w\<lparr>spans := (spans w)(?c := ?sp), span_next := Suc ?c\<rparr>"
  have wf1: "wf_world ?w1"
    using wf by (rule wf_world_new_span) simp_all
  have next': "span_next w' = Suc ?c" by (simp add: w')
  have "wf_world w'"
  proof (cases b)
    case None
    then have "w' = ?w1\<lparr>sink := sink w @ [Trace e f name]\<rparr>"
      using shape by (cases w) (simp add: w')
    then show ?thesis using wf1 by (simp only: wf_world_sink)
  next
    case (Some m)
    then have nb: "nb = range_map (baggage_of w p)" and m: "m = bmap_next w"
      using shape by auto
    have dist: "distinct (map fst nb)"
      unfolding nb using wf p by (rule entries_distinct)
    have "wf_world (?w1\<lparr>spans := (spans ?w1)(?c := spans ?w1 ?c\<lparr>baggage := Some (bmap_next ?w1)\<rparr>),
                    bmaps := (bmaps ?w1)(bmap_next ?w1 := nb),
                    bmap_next := Suc (bmap_next ?w1)\<rparr>)"
      using wf1 _ _ dist by (rule wf_world_new_bmap) simp_all
    moreover have "w' =
       (?w1\<lparr>spans := (spans ?w1)(?c := spans ?w1 ?c\<lparr>baggage := Some (bmap_next ?w1)\<rparr>),
                    bmaps := (bmaps ?w1)(bmap_next ?w1 := nb),
                    bmap_next := Suc (bmap_next ?w1)\<rparr>)\<lparr>sink := sink w @ [Trace e f name]\<rparr>"
      using Some m by (cases w) (simp add: w')
    ultimately show ?thesis by (simp only: wf_world_sink)
  qed
  with start next' show ?thesis by blast
qed

lemma parent_loop_ChildOf:
  "parent_loop (References (start_options [ChildOf (Context p)])) None = Some p"
  by (simp add: start_options_def ChildOf_def Context_def)


subsection \<open>Tags and logging after StartSpan\<close>

lemma SetBaggageItem_frame:
  "tags (spans (SetBaggageItem s k v w) s') = tags (spans w s')"
  "tracer (spans (SetBaggageItem s k v w) s') = tracer (spans w s')"
  "Span.logger (spans (SetBaggageItem s k v w) s') = Span.logger (spans w s')"
  "tmaps (SetBaggageItem s k v w) = tmaps w"
  "sink (SetBaggageItem s k v w) = sink w"
  by (cases "baggage (spans w s)"; simp add: SetBaggageItem_def)+

lemma copy_loop_frame:
  "tags (spans (copy_loop c xs w) s') = tags (spans w s') \<and>
   tracer (spans (copy_loop c xs w) s') = tracer (spans w s') \<and>
   Span.logger (spans (copy_loop c xs w) s') = Span.logger (spans w s') \<and>
   tmaps (copy_loop c xs w) = tmaps w \<and>
   sink (copy_loop c xs w) = sink w"
  by (induction xs arbitrary: w) (simp_all add: SetBaggageItem_frame)

lemma copy_baggage_frame_other:
  "tags (spans (copy_baggage parent c w) s') = tags (spans w s') \<and>
   tracer (spans (copy_baggage parent c w) s') = tracer (spans w s') \<and>
   Span.logger (spans (copy_baggage parent c w) s') = Span.logger (spans w s') \<and>
   tmaps (copy_baggage parent c w) = tmaps w \<and>
   sink (copy_baggage parent c w) = sink w"
  by (cases parent) (simp_all add: copy_baggage_def copy_loop_frame)

text \<open>What a successful \<^const>\<open>StartSpan\<close> leaves, in any world.\<close>

lemma StartSpan_result:
  assumes "StartSpan t name opts now w = Inr (c, w')"
  shows "\<exists>e. c = span_next w \<and>
           tracer (spans w' c) = t \<and>
           tags (spans w' c) = None \<and>
           Span.logger (spans w' c) =
             Some (Entry e (snd (makeFields t (baggage_of w' c)
                      (Some (tags_loop (range_map (Tags (start_options opts))) [])) [])) name) \<and>
           sink w' = sink w @
             [Trace e (snd (makeFields t (baggage_of w' c)
                      (Some (tags_loop (range_map (Tags (start_options opts))) [])) [])) name]"
proof -
  let ?parent = "parent_loop (References (start_options opts)) None"
  let ?w2 = "copy_baggage ?parent (span_next w) (alloc_Span t name now w)"
  let ?f = "snd (makeFields t (baggage_of ?w2 (span_next w))
                      (Some (tags_loop (range_map (Tags (start_options opts))) [])) [])"
  have frame: "tags (spans ?w2 (span_next w)) = None" "tracer (spans ?w2 (span_next w)) = t"
    "sink ?w2 = sink w"
    by (simp_all add: copy_baggage_frame_other) (simp_all add: alloc_Span_def)
  from assms obtain e where c: "c = span_next w"
    and w': "w' = set_logger (span_next w) (Entry e ?f name) (emit (Trace e ?f name) ?w2)"
    unfolding StartSpan_def Let_def
    by (auto split: prod.splits option.splits)
  have bag: "baggage_of w' c = baggage_of ?w2 (span_next w)"
    unfolding w' c by (simp add: set_logger_def emit_def baggage_of_def)
  have "tracer (spans w' c) = t" "tags (spans w' c) = None"
    "Span.logger (spans w' c) = Some (Entry e ?f name)" "sink w' = sink w @ [Trace e ?f name]"
    unfolding w' c using frame by (simp_all add: set_logger_def emit_def)
  then show ?thesis unfolding bag [symmetric] using c by blast
qed

text \<open>
  C9: after \<^const>\<open>StartSpan\<close> the tags map of the new span is nil. The tags of the
  start options went into the fields of the opening \<^verbatim>\<open>Trace\<close> call only. A
  \<^const>\<open>LogFields\<close> that follows merges with no tags, and after one \<^const>\<open>SetTag\<close> it
  merges with that tag alone.
\<close>

theorem StartSpan_tags_not_stored:
  assumes "StartSpan t name opts now w = Inr (c, w')"
  shows "tags (spans w' c) = None \<and>
         tags_of w' c = None \<and>
         (\<exists>e. Span.logger (spans w' c) =
                 Some (Entry e (snd (makeFields t (baggage_of w' c)
                      (Some (tags_loop (range_map (Tags (start_options opts))) [])) [])) name) \<and>
               sink w' = sink w @
                 [Trace e (snd (makeFields t (baggage_of w' c)
                      (Some (tags_loop (range_map (Tags (start_options opts))) [])) [])) name]) \<and>
         LogFields c flds w' =
           info t (Span.logger (spans w' c)) (baggage_of w' c) None flds w' \<and>
         LogFields c flds (SetTag c k v w') =
           info t (Span.logger (spans w' c)) (baggage_of w' c) (Some [(k, v)]) flds
             (SetTag c k v w')"
proof -
  from StartSpan_result [OF assms] obtain e where
      tr: "tracer (spans w' c) = t" and tg: "tags (spans w' c) = None"
    and lg: "Span.logger (spans w' c) =
             Some (Entry e (snd (makeFields t (baggage_of w' c)
                      (Some (tags_loop (range_map (Tags (start_options opts))) [])) [])) name)"
    and sk: "sink w' = sink w @
             [Trace e (snd (makeFields t (baggage_of w' c)
                      (Some (tags_loop (range_map (Tags (start_options opts))) [])) [])) name]"
    by blast
  have none: "tags_of w' c = None" using tg by (simp add: tags_of_def)
  have plain: "LogFields c flds w' =
           info t (Span.logger (spans w' c)) (baggage_of w' c) None flds w'"
    by (simp add: LogFields_def tr none)
  have set: "SetTag c k v w' =
     w'\<lparr>spans := (spans w')(c := (spans w' c)\<lparr>tags := Some (tmap_next w')\<rparr>),
       tmaps := (tmaps w')(tmap_next w' := [(k, v)]),
       tmap_next := Suc (tmap_next w')\<rparr>"
    using tg by (rule SetTag_None)
  have after: "tracer (spans (SetTag c k v w') c) = t"
    "Span.logger (spans (SetTag c k v w') c) = Span.logger (spans w' c)"
    "baggage_of (SetTag c k v w') c = baggage_of w' c"
    "tags_of (SetTag c k v w') c = Some [(k, v)]"
    unfolding set using tr by (simp_all add: baggage_of_def tags_of_def)
  have tagged: "LogFields c flds (SetTag c k v w') =
           info t (Span.logger (spans w' c)) (baggage_of w' c) (Some [(k, v)]) flds
             (SetTag c k v w')"
    by (simp only: LogFields_def after)
  from tg none lg sk plain tagged show ?thesis by blast
qed

theorem StartSpan_tags_not_stored_witness:
  "\<exists>w1.
     StartSpan (New (Logger 0) None []) ''parent'' [opentracing_Tags [(''tk'', GString ''tv'')]] 0
       init_world = Inr (0, w1) \<and>
     tags (spans w1 0) = None \<and>
     sink w1 = [Trace (Logger 0) [(''tk'', GString ''tv'')] ''parent''] \<and>
     LogFields 0 [otlog_String ''event'' ''e''] w1 =
       Inr (emit (InfoWithFields (Entry (Logger 0) [(''tk'', GString ''tv'')] ''parent'')
                    [(''event'', GString ''e'')] '''') w1) \<and>
     LogFields 0 [otlog_String ''event'' ''e''] (SetTag 0 ''k'' (GBool True) w1) =
       Inr (emit (InfoWithFields (Entry (Logger 0) [(''tk'', GString ''tv'')] ''parent'')
                    [(''k'', GBool True), (''event'', GString ''e'')] '''')
              (SetTag 0 ''k'' (GBool True) w1))"
proof -
  let ?t = "New (Logger 0) None []"
  let ?opts = "[opentracing_Tags [(''tk'', GString ''tv'')]]"
  have "\<forall>p. parent_loop (References (start_options ?opts)) None = Some p \<longrightarrow> p < span_next init_world"
    by (simp add: start_options_def opentracing_Tags_def)
  from wf_world_StartSpan [OF wf_init_world this, of ?t "''parent''" 0]
  obtain w1 where s1: "StartSpan ?t ''parent'' ?opts 0 init_world = Inr (0, w1)"
    by (auto simp add: init_world_def)
  have root: "parent_loop (References (start_options ?opts)) None = None"
    by (simp add: start_options_def opentracing_Tags_def)
  have bag: "baggage_of w1 0 = None"
    using s1 unfolding StartSpan_without_parent [OF root]
    by (auto simp add: init_world_def set_logger_def emit_def alloc_Span_def baggage_of_def)
  have tgs: "tags_loop (range_map (Tags (start_options ?opts))) [] = [(''tk'', GString ''tv'')]"
    by (simp add: start_options_def opentracing_Tags_def)
  have f: "snd (makeFields ?t None (Some [(''tk'', GString ''tv'')]) []) = [(''tk'', GString ''tv'')]"
    by (simp add: makeFields_def)
  have k: "msgKey ?t = ''message''" by (simp add: New_def DefaultMsgKey_def)
  note fact = StartSpan_tags_not_stored [OF s1, of "[otlog_String ''event'' ''e'']" "''k''" "GBool True"]
  have t1: "tags (spans w1 0) = None" using fact by blast
  have lg: "Span.logger (spans w1 0) = Some (Entry (Logger 0) [(''tk'', GString ''tv'')] ''parent'')"
    and sk: "sink w1 = [Trace (Logger 0) [(''tk'', GString ''tv'')] ''parent'']"
    using s1 unfolding StartSpan_without_parent [OF root] tgs f
    by (auto simp add: init_world_def set_logger_def emit_def alloc_Span_def New_def)
  have l1: "LogFields 0 [otlog_String ''event'' ''e''] w1 =
       Inr (emit (InfoWithFields (Entry (Logger 0) [(''tk'', GString ''tv'')] ''parent'')
                    [(''event'', GString ''e'')] '''') w1)"
    using fact by (simp add: lg bag info_def makeFields_def otlog_String_def k)
  have l2: "LogFields 0 [otlog_String ''event'' ''e''] (SetTag 0 ''k'' (GBool True) w1) =
       Inr (emit (InfoWithFields (Entry (Logger 0) [(''tk'', GString ''tv'')] ''parent'')
                    [(''k'', GBool True), (''event'', GString ''e'')] '''')
              (SetTag 0 ''k'' (GBool True) w1))"
    using fact by (simp add: lg bag info_def makeFields_def otlog_String_def k)
  from s1 t1 sk l1 l2 show ?thesis by blast
qed

text \<open>
  C8: on a span that has its logger, \<^const>\<open>LogFields\<close> returns, the sink has received
  one more call, an \<^verbatim>\<open>Info\<close> on the span's entry with the merged fields, and the spans
  and their maps are what they were: the operation name, the start time, the baggage,
  the tags and the entry of the span are unchanged.
\<close>

theorem LogFields_frame:
  assumes "Span.logger (spans w s) = Some e"
  shows "\<exists>w' em. LogFields s flds w = Inr w' \<and>
           sink w' = sink w @ [em] \<and>
           em = (if snd (makeFields (tracer (spans w s)) (baggage_of w s) (tags_of w s) flds) \<noteq> []
                 then InfoWithFields e
                        (snd (makeFields (tracer (spans w s)) (baggage_of w s) (tags_of w s) flds))
                        (fst (makeFields (tracer (spans w s)) (baggage_of w s) (tags_of w s) flds))
                 else Info e
                        (fst (makeFields (tracer (spans w s)) (baggage_of w s) (tags_of w s) flds))) \<and>
           spans w' = spans w \<and> span_next w' = span_next w \<and>
           bmaps w' = bmaps w \<and> bmap_next w' = bmap_next w \<and>
           tmaps w' = tmaps w \<and> tmap_next w' = tmap_next w \<and>
           operationName (spans w' s) = operationName (spans w s) \<and>
           startedAt (spans w' s) = startedAt (spans w s) \<and>
           Span.logger (spans w' s) = Span.logger (spans w s) \<and>
           baggage_of w' s = baggage_of w s \<and>
           tags_of w' s = tags_of w s"
  using assms
  by (simp add: LogFields_def info_def emit_def baggage_of_def tags_of_def split: prod.splits)

theorem LogFields_frame_witness:
  "\<exists>w1 w'.
     StartSpan (New (Logger 0) None []) ''op'' [] 0 init_world = Inr (0, w1) \<and>
     Span.logger (spans w1 0) = Some (Entry (Logger 0) [] ''op'') \<and>
     LogFields 0 [otlog_String ''event'' ''soft error''] (SetBaggageItem 0 ''bk'' ''bv'' w1) = Inr w' \<and>
     sink w' = sink w1 @
       [InfoWithFields (Entry (Logger 0) [] ''op'')
          [(''bk'', GString ''bv''), (''event'', GString ''soft error'')] ''''] \<and>
     spans w' = spans (SetBaggageItem 0 ''bk'' ''bv'' w1) \<and>
     bmaps w' = bmaps (SetBaggageItem 0 ''bk'' ''bv'' w1)"
proof -
  let ?t = "New (Logger 0) None []"
  define w1 where "w1 = emit (Trace (Tracer.logger ?t) [] ''op'')
               (init_world\<lparr>spans := (spans init_world)(0 :=
                    \<lparr>tracer = ?t, operationName = ''op'', startedAt = 0,
                     logger = Some (Entry (Tracer.logger ?t) [] ''op''), baggage = None, tags = None\<rparr>),
                  span_next := Suc 0\<rparr>)"
  let ?w2 = "SetBaggageItem 0 ''bk'' ''bv'' w1"
  have s1: "StartSpan ?t ''op'' [] 0 init_world = Inr (0, w1)"
    unfolding w1_def by (rule StartSpan_root_init)
  have lg1: "Span.logger (spans w1 0) = Some (Entry (Logger 0) [] ''op'')"
    by (simp add: w1_def emit_def New_def)
  have lg2: "Span.logger (spans ?w2 0) = Some (Entry (Logger 0) [] ''op'')"
    by (simp add: SetBaggageItem_frame lg1)
  have mf: "makeFields (tracer (spans ?w2 0)) (baggage_of ?w2 0) (tags_of ?w2 0)
              [otlog_String ''event'' ''soft error''] =
            ('''', [(''bk'', GString ''bv''), (''event'', GString ''soft error'')])"
    by (simp add: w1_def emit_def init_world_def SetBaggageItem_def baggage_of_def tags_of_def
        makeFields_def New_def DefaultMsgKey_def otlog_String_def)
  have sk: "sink ?w2 = sink w1" by (simp add: SetBaggageItem_frame)
  from LogFields_frame [OF lg2, of "[otlog_String ''event'' ''soft error'']"]
  obtain w' where "LogFields 0 [otlog_String ''event'' ''soft error''] ?w2 = Inr w'"
    and "sink w' = sink w1 @
       [InfoWithFields (Entry (Logger 0) [] ''op'')
          [(''bk'', GString ''bv''), (''event'', GString ''soft error'')] '''']"
    and "spans w' = spans ?w2" and "bmaps w' = bmaps ?w2"
    unfolding mf sk by auto
  with s1 lg1 show ?thesis by blast
qed

subsection \<open>The other operations keep the invariant\<close>

lemma wf_world_SetOperationName:
  assumes wf: "wf_world w"
  shows "wf_world (SetOperationName s name w)"
  unfolding SetOperationName_def
proof (rule wf_worldI)
  let ?w' = "w\<lparr>spans := (spans w)(s := (spans w s)\<lparr>operationName := name\<rparr>)\<rparr>"
  {
    fix s' assume "s' < span_next ?w'"
    then show "Span.logger (spans ?w' s') \<noteq> None"
      using wf_world_logger [OF wf, of s'] by auto
  next
    fix s' m assume "s' < span_next ?w'" and "baggage (spans ?w' s') = Some m"
    then show "m < bmap_next ?w' \<and> distinct (map fst (bmaps ?w' m))"
      using wf_world_baggage [OF wf, of s' m] by (auto split: if_splits)
  next
    fix s' m assume "s' < span_next ?w'" and "tags (spans ?w' s') = Some m"
    then show "m < tmap_next ?w' \<and> distinct (map fst (tmaps ?w' m))"
      using wf_world_tags [OF wf, of s' m] by (auto split: if_splits)
  next
    fix s1 s2 m
    assume "s1 < span_next ?w'" and "s2 < span_next ?w'" and "s1 \<noteq> s2"
      and "baggage (spans ?w' s1) = Some m"
    then show "baggage (spans ?w' s2) \<noteq> Some m"
      using wf_world_baggage_own [OF wf, of s1 s2 m] by (auto split: if_splits)
  next
    fix s1 s2 m
    assume "s1 < span_next ?w'" and "s2 < span_next ?w'" and "s1 \<noteq> s2"
      and "tags (spans ?w' s1) = Some m"
    then show "tags (spans ?w' s2) \<noteq> Some m"
      using wf_world_tags_own [OF wf, of s1 s2 m] by (auto split: if_splits)
  }
qed

lemma wf_world_LogFields:
  "wf_world w \<Longrightarrow> LogFields s flds w = Inr w' \<Longrightarrow> wf_world w'"
  by (auto simp add: LogFields_def info_def emit_def wf_world_sink
      split: prod.splits option.splits if_splits)

lemma wf_world_Finish:
  "wf_world w \<Longrightarrow> Finish s w = Inr w' \<Longrightarrow> wf_world w'"
  by (auto simp add: Finish_def emit_def wf_world_sink split: option.splits)

lemma wf_world_LogKV: "wf_world w \<Longrightarrow> wf_world (LogKV errorKey s kvs w)"
  by (simp add: LogKV_def)

text \<open>On an allocated span of a world with the invariant, the logging calls return.\<close>

lemma LogFields_returns:
  "wf_world w \<Longrightarrow> s < span_next w \<Longrightarrow> \<exists>w'. LogFields s flds w = Inr w'"
  using wf_world_logger [of w s]
  by (auto simp add: LogFields_def info_def split: prod.splits)

text \<open>
  In a world with the invariant, setting a baggage item on one allocated span changes
  no baggage item of another.
\<close>

lemma SetBaggageItem_no_interference:
  assumes wf: "wf_world w" and p: "p < span_next w" and c: "c < span_next w" and pc: "p \<noteq> c"
  shows "BaggageItem c k' (SetBaggageItem p k v w) = BaggageItem c k' w"
proof -
  have "\<forall>m. baggage (spans w c) = Some m \<longrightarrow> m < bmap_next w \<and> baggage (spans w p) \<noteq> Some m"
    using wf_world_baggage [OF wf c] wf_world_baggage_own [OF wf c p] pc by blast
  then have "baggage_of (SetBaggageItem p k v w) c = baggage_of w c"
    using pc by (intro SetBaggageItem_other) simp_all
  then show ?thesis by (simp only: BaggageItem_range)
qed

lemma New_msgKey:
  "msgKey (New log_Log lg []) = ''message''"
  "msgKey (New log_Log lg [WithMsgKey k]) = k"
  "Tracer.logger (New log_Log None opts) = log_Log"
  "Tracer.logger (New log_Log (Some l) opts) = l"
  by (simp_all add: New_def DefaultMsgKey_def WithMsgKey_def)

end
